theory Spec2Isabelle
  imports Main "HOL-Library.Sublist"
begin

section \<open>The to-do list application (class TodoApp)\<close>

text \<open>
  The model follows the refactored class \<^verbatim>\<open>TodoApp\<close> (the file with \<^verbatim>\<open>_apiRequest\<close>,
  \<^verbatim>\<open>_showLoading\<close> and \<^verbatim>\<open>_createTodoElement(todo)\<close>). The older \<^verbatim>\<open>app.js\<close> has the same
  \<^verbatim>\<open>addTodo\<close>, click handlers and bulk operations, with the fetch written out in each
  of \<^verbatim>\<open>saveTodo\<close>, \<^verbatim>\<open>updateTodo\<close> and \<^verbatim>\<open>deleteTodo\<close>.

  The application keeps its tasks in the document: each task is an \<^verbatim>\<open>li\<close> element whose
  class list and \<^verbatim>\<open>dataset\<close> hold the task's fields. Handlers are \<^verbatim>\<open>async\<close> functions
  that close over their \<^verbatim>\<open>li\<close>; they are suspended at \<^verbatim>\<open>await\<close> and resumed when the
  request settles. The model is a store of elements, the list of children of
  \<^verbatim>\<open>#todo-list\<close>, and a table of suspended handlers; one step is one user event or one
  settled request, run to its next suspension.
\<close>

subsection \<open>Values\<close>

text \<open>A JavaScript number that is read from a date: \<^verbatim>\<open>NaN\<close> or a count of milliseconds.\<close>

datatype jsnum = NaN | Num int

text \<open>
  A to-do object of a reply, as \<^verbatim>\<open>_createTodoElement\<close> reads it: \<open>t_id\<close> is the text
  \<^verbatim>\<open>String(todo.id)\<close> that \<^verbatim>\<open>li.dataset.todoId = todo.id\<close> stores, \<open>t_created_at\<close> is
  \<^verbatim>\<open>todo.created_at\<close> (\<open>None\<close> when it is falsy), and \<open>t_created_ms\<close> is the value of
  \<^verbatim>\<open>new Date(todo.created_at).getTime()\<close>, which the platform computes.
\<close>

record todo =
  t_id :: string
  t_title :: string
  t_completed :: bool
  t_created_at :: "string option"
  t_created_ms :: jsnum

text \<open>An \<^verbatim>\<open>li\<close> element with the parts of its subtree that the handlers read or write.\<close>

record li =
  todoId :: "string option"         \<comment> \<open>\<^verbatim>\<open>li.dataset.todoId\<close>\<close>
  taskText :: string                \<comment> \<open>\<^verbatim>\<open>li.dataset.taskText\<close>\<close>
  createdAt :: "string option"      \<comment> \<open>\<^verbatim>\<open>li.dataset.createdAt\<close>\<close>
  completedTime :: "jsnum option"   \<comment> \<open>\<^verbatim>\<open>li.dataset.completedTime\<close>\<close>
  completed :: bool                 \<comment> \<open>class \<^verbatim>\<open>completed\<close>\<close>
  editing :: bool                   \<comment> \<open>class \<^verbatim>\<open>editing\<close>\<close>
  hidden :: bool                    \<comment> \<open>class \<^verbatim>\<open>hidden\<close>\<close>
  contentText :: string             \<comment> \<open>\<^verbatim>\<open>contentDiv.textContent\<close>\<close>
  editValue :: string               \<comment> \<open>\<^verbatim>\<open>editInput.value\<close>\<close>
  timeText :: "jsnum option"        \<comment> \<open>the time \<^verbatim>\<open>timeDiv\<close> shows, \<open>None\<close> for no text\<close>
  timeDisplay :: bool               \<comment> \<open>\<^verbatim>\<open>timeDiv.style.display\<close> is \<^verbatim>\<open>block\<close>\<close>

text \<open>The requests sent with \<^verbatim>\<open>fetch\<close>; the identifier is the text that \<^verbatim>\<open>parseInt\<close> reads.\<close>

datatype request =
    GetTodos
  | PostTodo string                 \<comment> \<open>title; the description is empty\<close>
  | PutTodo string string bool      \<comment> \<open>identifier, title, completed\<close>
  | DeleteTodo string

text \<open>
  The body of a reply that parsed as JSON, and the outcome of a request. \<open>Failed\<close> is every
  path into the \<^verbatim>\<open>catch\<close> of \<^verbatim>\<open>_apiRequest\<close>: \<^verbatim>\<open>fetch\<close> rejects, the status is not ok,
  or the body is not JSON.
\<close>

datatype body = Item todo | Items "todo list" | Other

datatype reply = Failed | Returned body

datatype notice =
    AlertEnterTodo | AlertEmptyEdit | AlertNoTasks | AlertNoCompleted
  | AlertClearAllFailed | AlertClearCompletedFailed | ToastFailed

text \<open>
  A handler suspended at its \<^verbatim>\<open>await\<close>. \<open>AllK g\<close> is one of the promises given to the
  \<^verbatim>\<open>Promise.all\<close> numbered \<open>g\<close>.
\<close>

datatype cont =
    LoadK
  | AddK
  | ToggleK nat
  | DeleteK nat
  | SaveEditK nat string
  | AllK nat

datatype bulk = ClearAllB | ClearCompletedB "nat list"

record group =
  g_left :: nat                     \<comment> \<open>promises not yet fulfilled\<close>
  g_then :: bulk                    \<comment> \<open>the function awaiting the \<^verbatim>\<open>Promise.all\<close>\<close>

record app =
  elems :: "nat \<Rightarrow> li"              \<comment> \<open>the \<^verbatim>\<open>li\<close> objects, by reference\<close>
  nextElem :: nat
  todoList :: "nat list"            \<comment> \<open>children of \<^verbatim>\<open>#todo-list\<close>, in document order\<close>
  currentFilter :: string
  inputValue :: string              \<comment> \<open>\<^verbatim>\<open>todoInput.value\<close>\<close>
  taskCount :: "nat \<times> nat \<times> nat"     \<comment> \<open>total, active, completed in \<^verbatim>\<open>taskCountEl\<close>\<close>
  loading :: bool                   \<comment> \<open>class \<^verbatim>\<open>active\<close> of the loading bar\<close>
  pending :: "nat \<Rightarrow> cont option"   \<comment> \<open>requests in flight and who awaits them\<close>
  nextReq :: nat
  groups :: "nat \<Rightarrow> group option"   \<comment> \<open>unsettled \<^verbatim>\<open>Promise.all\<close> promises\<close>
  nextGroup :: nat
  calls :: "request list"           \<comment> \<open>every \<^verbatim>\<open>fetch\<close> made, oldest first\<close>
  notices :: "notice list"          \<comment> \<open>alerts and toasts shown, oldest first\<close>

subsection \<open>Strings\<close>

text \<open>
  \<^verbatim>\<open>String.prototype.trim\<close>. Characters are the code points below 256; those that
  ECMAScript counts as white space there are tab, line feed, vertical tab, form feed,
  carriage return, space and no-break space.
\<close>

definition is_space :: "char \<Rightarrow> bool" where
  "is_space c = (c \<in> set [CHR 0x09, CHR 0x0A, CHR 0x0B, CHR 0x0C, CHR 0x0D, CHR 0x20, CHR 0xA0])"

definition trim :: "string \<Rightarrow> string" where
  "trim s = rev (dropWhile is_space (rev (dropWhile is_space s)))"

text \<open>The guard \<^verbatim>\<open>if (todoId)\<close>: a missing entry and the empty string are falsy.\<close>

definition backendId :: "li \<Rightarrow> string option" where
  "backendId l = (case todoId l of None \<Rightarrow> None | Some i \<Rightarrow> if i = [] then None else Some i)"

subsection \<open>Loading bar, toast and requests\<close>

definition showLoading :: "app \<Rightarrow> app" where
  "showLoading s = s\<lparr>loading := True\<rparr>"

definition hideLoading :: "app \<Rightarrow> app" where
  "hideLoading s = s\<lparr>loading := False\<rparr>"

definition showToast :: "notice \<Rightarrow> app \<Rightarrow> app" where
  "showToast n s = s\<lparr>notices := notices s @ [n]\<rparr>"

definition alert :: "notice \<Rightarrow> app \<Rightarrow> app" where
  "alert n s = s\<lparr>notices := notices s @ [n]\<rparr>"

text \<open>
  \<^verbatim>\<open>_apiRequest\<close> up to its \<^verbatim>\<open>await fetch\<close>: the bar is switched on, the request leaves,
  and the caller \<open>k\<close> waits for it.
\<close>

definition apiRequest :: "request \<Rightarrow> cont \<Rightarrow> app \<Rightarrow> app" where
  "apiRequest rq k s =
     (showLoading s)\<lparr>calls := calls s @ [rq],
                     pending := (pending s)(nextReq s \<mapsto> k),
                     nextReq := Suc (nextReq s)\<rparr>"

text \<open>
  \<^verbatim>\<open>_apiRequest\<close> after the \<^verbatim>\<open>await\<close>: the \<^verbatim>\<open>catch\<close> shows the error toast, the
  \<^verbatim>\<open>finally\<close> switches the bar off.
\<close>

definition settle :: "reply \<Rightarrow> app \<Rightarrow> app" where
  "settle rep s = hideLoading (case rep of Failed \<Rightarrow> showToast ToastFailed s | Returned b \<Rightarrow> s)"

definition saveTodo :: "string \<Rightarrow> cont \<Rightarrow> app \<Rightarrow> app" where
  "saveTodo title k s = apiRequest (PostTodo title) k s"

definition updateTodo :: "string \<Rightarrow> string \<Rightarrow> bool \<Rightarrow> cont \<Rightarrow> app \<Rightarrow> app" where
  "updateTodo i title c k s = apiRequest (PutTodo i title c) k s"

definition deleteTodo :: "string \<Rightarrow> cont \<Rightarrow> app \<Rightarrow> app" where
  "deleteTodo i k s = apiRequest (DeleteTodo i) k s"

subsection \<open>Counter and filter\<close>

definition updateTaskCounter :: "app \<Rightarrow> app" where
  "updateTaskCounter s =
     (let allTasks = todoList s;
          activeTasks = filter (\<lambda>e. \<not> completed (elems s e)) allTasks;
          completedTasks = length allTasks - length activeTasks
      in s\<lparr>taskCount := (length allTasks, length activeTasks, completedTasks)\<rparr>)"

definition filterTask :: "string \<Rightarrow> li \<Rightarrow> li" where
  "filterTask f task =
     (let t1 = task\<lparr>hidden := False\<rparr>
      in if f = ''active'' \<and> completed t1 then t1\<lparr>hidden := True\<rparr>
         else if f = ''completed'' \<and> \<not> completed t1 then t1\<lparr>hidden := True\<rparr>
         else t1)"

fun forEachTask :: "(li \<Rightarrow> li) \<Rightarrow> nat list \<Rightarrow> (nat \<Rightarrow> li) \<Rightarrow> (nat \<Rightarrow> li)" where
  "forEachTask f [] h = h"
| "forEachTask f (e # es) h = forEachTask f es (h(e := f (h e)))"

definition applyFilter :: "app \<Rightarrow> app" where
  "applyFilter s = s\<lparr>elems := forEachTask (filterTask (currentFilter s)) (todoList s) (elems s)\<rparr>"

text \<open>The tasks the user sees: the children that do not carry the class \<^verbatim>\<open>hidden\<close>.\<close>

definition visible :: "app \<Rightarrow> nat list" where
  "visible s = filter (\<lambda>e. \<not> hidden (elems s e)) (todoList s)"

subsection \<open>Building a list item\<close>

definition createTodoElement :: "todo \<Rightarrow> app \<Rightarrow> app" where
  "createTodoElement t s =
     (let c = t_completed t;
          item = \<lparr>todoId = Some (t_id t),
                  taskText = t_title t,
                  createdAt = t_created_at t,
                  completedTime = (if c then Some (t_created_ms t) else None),
                  completed = c,
                  editing = False,
                  hidden = False,
                  contentText = t_title t,
                  editValue = t_title t,
                  timeText = (if c then Some (t_created_ms t) else None),
                  timeDisplay = c\<rparr>
      in s\<lparr>elems := (elems s)(nextElem s := item),
           nextElem := Suc (nextElem s),
           todoList := todoList s @ [nextElem s]\<rparr>)"

text \<open>\<^verbatim>\<open>li.remove()\<close>: the element leaves the list; nothing happens when it is not in it.\<close>

definition removeLi :: "nat \<Rightarrow> app \<Rightarrow> app" where
  "removeLi e s = s\<lparr>todoList := removeAll e (todoList s)\<rparr>"

subsection \<open>Handlers up to their await\<close>

definition loadTodos :: "app \<Rightarrow> app" where
  "loadTodos s = apiRequest GetTodos LoadK s"

definition addTodo :: "app \<Rightarrow> app" where
  "addTodo s =
     (let todoText = trim (inputValue s)
      in if todoText = [] then alert AlertEnterTodo s
         else saveTodo todoText AddK s)"

text \<open>
  The click handler of \<^verbatim>\<open>contentDiv\<close>; \<open>now\<close> is the value of \<^verbatim>\<open>Date.now()\<close>. Its
  first part, before the request, flips the class and keeps the completion time with it.
\<close>

definition toggleCompleted :: "int \<Rightarrow> li \<Rightarrow> li" where
  "toggleCompleted now l =
     (let wasCompleted = completed l;
          l1 = l\<lparr>completed := \<not> wasCompleted\<rparr>
      in if \<not> wasCompleted \<and> completed l1
         then l1\<lparr>completedTime := Some (Num now), timeText := Some (Num now),
                 timeDisplay := True\<rparr>
         else if wasCompleted \<and> \<not> completed l1
         then l1\<lparr>completedTime := None, timeText := None, timeDisplay := False\<rparr>
         else l1)"

definition contentDiv_click :: "nat \<Rightarrow> int \<Rightarrow> app \<Rightarrow> app" where
  "contentDiv_click e now s =
     (if editing (elems s e) then s
      else
        let l = toggleCompleted now (elems s e);
            s1 = s\<lparr>elems := (elems s)(e := l)\<rparr>
        in case backendId l of
             Some i \<Rightarrow> updateTodo i (taskText l) (completed l) (ToggleK e) s1
           | None \<Rightarrow> applyFilter (updateTaskCounter s1))"

definition deleteButton_click :: "nat \<Rightarrow> app \<Rightarrow> app" where
  "deleteButton_click e s =
     (case backendId (elems s e) of
        Some i \<Rightarrow> deleteTodo i (DeleteK e) s
      | None \<Rightarrow> applyFilter (updateTaskCounter (removeLi e s)))"

definition enterEditMode :: "nat \<Rightarrow> app \<Rightarrow> app" where
  "enterEditMode e s = s\<lparr>elems := (elems s)(e := (elems s e)\<lparr>editing := True\<rparr>)\<rparr>"

definition saveEdit :: "nat \<Rightarrow> app \<Rightarrow> app" where
  "saveEdit e s =
     (let l = elems s e; newText = trim (editValue l)
      in if newText = [] then alert AlertEmptyEdit s
         else case backendId l of
                Some i \<Rightarrow> updateTodo i newText (completed l) (SaveEditK e newText) s
              | None \<Rightarrow> s)"

definition cancelEdit :: "nat \<Rightarrow> app \<Rightarrow> app" where
  "cancelEdit e s =
     s\<lparr>elems := (elems s)(e := (elems s e)\<lparr>editValue := taskText (elems s e), editing := False\<rparr>)\<rparr>"

text \<open>
  The body of the two bulk operations once the user has confirmed: one \<^verbatim>\<open>_deleteTodo\<close>
  for every element with an identifier, all started before anything is awaited.
\<close>

definition deleteEach :: "nat \<Rightarrow> nat list \<Rightarrow> app \<Rightarrow> app" where
  "deleteEach g es s =
     fold (\<lambda>e s'. case backendId (elems s' e) of
                     Some i \<Rightarrow> deleteTodo i (AllK g) s'
                   | None \<Rightarrow> s') es s"

definition awaited :: "app \<Rightarrow> nat list \<Rightarrow> nat" where
  "awaited s es = length (filter (\<lambda>e. backendId (elems s e) \<noteq> None) es)"

text \<open>What runs after \<^verbatim>\<open>await Promise.all(deletePromises)\<close>, and what the \<^verbatim>\<open>catch\<close> runs.\<close>

fun bulkDone :: "bulk \<Rightarrow> app \<Rightarrow> app" where
  "bulkDone ClearAllB s = updateTaskCounter (s\<lparr>todoList := []\<rparr>)"
| "bulkDone (ClearCompletedB completedTasks) s =
     applyFilter (updateTaskCounter (fold removeLi completedTasks s))"

fun bulkFailed :: "bulk \<Rightarrow> app \<Rightarrow> app" where
  "bulkFailed ClearAllB s = alert AlertClearAllFailed s"
| "bulkFailed (ClearCompletedB completedTasks) s = alert AlertClearCompletedFailed s"

definition awaitAll :: "bulk \<Rightarrow> nat list \<Rightarrow> app \<Rightarrow> app" where
  "awaitAll b es s =
     (let g = nextGroup s; n = awaited s es; s1 = deleteEach g es s
      in if n = 0 then bulkDone b s1
         else s1\<lparr>groups := (groups s1)(g \<mapsto> \<lparr>g_left = n, g_then = b\<rparr>),
                 nextGroup := Suc g\<rparr>)"

text \<open>\<open>ok\<close> is the answer to \<^verbatim>\<open>confirm\<close>.\<close>

definition clearAllTodos :: "bool \<Rightarrow> app \<Rightarrow> app" where
  "clearAllTodos ok s =
     (if todoList s = [] then alert AlertNoTasks s
      else if ok then awaitAll ClearAllB (todoList s) s
      else s)"

definition clearCompletedTodos :: "bool \<Rightarrow> app \<Rightarrow> app" where
  "clearCompletedTodos ok s =
     (let completedTasks = filter (\<lambda>e. completed (elems s e)) (todoList s)
      in if completedTasks = [] then alert AlertNoCompleted s
         else if ok then awaitAll (ClearCompletedB completedTasks) completedTasks s
         else s)"

subsection \<open>Handlers after their await\<close>

text \<open>
  \<open>resume k rep s\<close> is the rest of the handler \<open>k\<close> once its request has settled with
  \<open>rep\<close>. \<^verbatim>\<open>addTodo\<close> reads a to-do object and \<^verbatim>\<open>loadTodos\<close> an array of them; a body of
  another shape is outside the store's contract, and the model leaves the list as it is.
  A \<^verbatim>\<open>Promise.all\<close> rejects with the first promise that rejects and is fulfilled with
  the last one that is fulfilled; once it has rejected, later outcomes are dropped.
\<close>

fun resume :: "cont \<Rightarrow> reply \<Rightarrow> app \<Rightarrow> app" where
  "resume LoadK (Returned (Items todos)) s =
     applyFilter (updateTaskCounter (fold createTodoElement todos (s\<lparr>todoList := []\<rparr>)))"
| "resume LoadK rep s = s"
| "resume AddK (Returned (Item newTodo)) s =
     applyFilter (updateTaskCounter ((createTodoElement newTodo s)\<lparr>inputValue := []\<rparr>))"
| "resume AddK rep s = s"
| "resume (ToggleK e) Failed s =
     applyFilter (updateTaskCounter
       (s\<lparr>elems := (elems s)(e := (elems s e)\<lparr>completed := \<not> completed (elems s e)\<rparr>)\<rparr>))"
| "resume (ToggleK e) (Returned b) s = applyFilter (updateTaskCounter s)"
| "resume (DeleteK e) Failed s = s"
| "resume (DeleteK e) (Returned b) s = applyFilter (updateTaskCounter (removeLi e s))"
| "resume (SaveEditK e newText) Failed s = s"
| "resume (SaveEditK e newText) (Returned b) s =
     updateTaskCounter
       (s\<lparr>elems := (elems s)(e := (elems s e)\<lparr>taskText := newText, contentText := newText,
                                               editValue := newText, editing := False\<rparr>)\<rparr>)"
| "resume (AllK g) rep s =
     (case groups s g of
        None \<Rightarrow> s
      | Some grp \<Rightarrow>
          (case rep of
             Failed \<Rightarrow> bulkFailed (g_then grp) (s\<lparr>groups := (groups s)(g := None)\<rparr>)
           | Returned b \<Rightarrow>
               if g_left grp \<le> 1
               then bulkDone (g_then grp) (s\<lparr>groups := (groups s)(g := None)\<rparr>)
               else s\<lparr>groups := (groups s)(g \<mapsto> grp\<lparr>g_left := g_left grp - 1\<rparr>)\<rparr>))"

text \<open>A request settles: nothing happens for a number that is not in flight.\<close>

definition resolve :: "nat \<Rightarrow> reply \<Rightarrow> app \<Rightarrow> app" where
  "resolve r rep s =
     (case pending s r of
        None \<Rightarrow> s
      | Some k \<Rightarrow> resume k rep (settle rep (s\<lparr>pending := (pending s)(r := None)\<rparr>)))"

subsection \<open>Events\<close>

datatype event =
    Load
  | TypeInput string
  | AddClick
  | EditClick nat
  | TypeEdit nat string
  | SaveClick nat
  | CancelClick nat
  | ToggleClick nat int
  | DeleteClick nat
  | ClearAllClick bool
  | ClearCompletedClick bool
  | Resolve nat reply

fun step :: "event \<Rightarrow> app \<Rightarrow> app" where
  "step Load s = loadTodos s"
| "step (TypeInput v) s = s\<lparr>inputValue := v\<rparr>"
| "step AddClick s = addTodo s"
| "step (EditClick e) s = enterEditMode e s"
| "step (TypeEdit e v) s = s\<lparr>elems := (elems s)(e := (elems s e)\<lparr>editValue := v\<rparr>)\<rparr>"
| "step (SaveClick e) s = saveEdit e s"
| "step (CancelClick e) s = cancelEdit e s"
| "step (ToggleClick e now) s = contentDiv_click e now s"
| "step (DeleteClick e) s = deleteButton_click e s"
| "step (ClearAllClick ok) s = clearAllTodos ok s"
| "step (ClearCompletedClick ok) s = clearCompletedTodos ok s"
| "step (Resolve r rep) s = resolve r rep s"

definition run :: "event list \<Rightarrow> app \<Rightarrow> app" where
  "run evs s = fold step evs s"

text \<open>The application before its constructor calls \<^verbatim>\<open>loadTodos\<close>.\<close>

definition blank :: li where
  "blank = \<lparr>todoId = None, taskText = [], createdAt = None, completedTime = None,
            completed = False, editing = False, hidden = False, contentText = [],
            editValue = [], timeText = None, timeDisplay = False\<rparr>"

definition init :: app where
  "init = \<lparr>elems = (\<lambda>e. blank), nextElem = 0, todoList = [], currentFilter = ''all'',
           inputValue = [], taskCount = (0, 0, 0), loading = False,
           pending = (\<lambda>r. None), nextReq = 0, groups = (\<lambda>g. None), nextGroup = 0,
           calls = [], notices = []\<rparr>"

subsection \<open>The visible subset as the specification words it\<close>

text \<open>
  FilterEngine of the specification: \<^verbatim>\<open>active\<close> excludes the tasks with
  \<^verbatim>\<open>completed == true\<close>, \<^verbatim>\<open>completed\<close> excludes those with \<^verbatim>\<open>completed == false\<close>,
  \<^verbatim>\<open>all\<close> excludes nothing; the order of the input is kept.
\<close>

definition spec_visible :: "string \<Rightarrow> (nat \<Rightarrow> li) \<Rightarrow> nat list \<Rightarrow> nat list" where
  "spec_visible f h tasks =
     (if f = ''active'' then filter (\<lambda>e. \<not> completed (h e)) tasks
      else if f = ''completed'' then filter (\<lambda>e. completed (h e)) tasks
      else tasks)"

subsection \<open>A sample list\<close>

text \<open>
  The store holds task 1, \<^verbatim>\<open>A\<close>, not completed, and task 2, \<^verbatim>\<open>B\<close>, completed; \<open>loaded\<close>
  is the application after \<^verbatim>\<open>loadTodos\<close> has received them.
\<close>

definition todoA :: todo where
  "todoA = \<lparr>t_id = ''1'', t_title = ''A'', t_completed = False,
             t_created_at = Some ''2026-02-03T08:00:00'', t_created_ms = Num 1000\<rparr>"

definition todoB :: todo where
  "todoB = \<lparr>t_id = ''2'', t_title = ''B'', t_completed = True,
             t_created_at = Some ''2026-02-03T09:00:00'', t_created_ms = Num 2000\<rparr>"

text \<open>The object the store returns for a new task titled \<^verbatim>\<open>Buy milk\<close>.\<close>

definition milk :: todo where
  "milk = \<lparr>t_id = ''3'', t_title = ''Buy milk'', t_completed = False,
            t_created_at = Some ''2026-02-03T10:00:00'', t_created_ms = Num 3000\<rparr>"

definition loaded :: app where
  "loaded = run [Load, Resolve 0 (Returned (Items [todoA, todoB]))] init"

text \<open>
  The same list with an item as \<^verbatim>\<open>createTodoElement\<close> of \<^verbatim>\<open>app.js\<close> builds it, with no
  entry \<^verbatim>\<open>todoId\<close> in its dataset.
\<close>

definition unsaved :: app where
  "unsaved = loaded\<lparr>elems := (elems loaded)(1 := (elems loaded 1)\<lparr>todoId := None\<rparr>)\<rparr>"

subsection \<open>Events that leave a toggle alone\<close>

text \<open>
  While the replace request \<open>r0\<close> of a toggle of item \<open>e\<close> is in flight, an event is quiet
  when it is neither another click on the content of \<open>e\<close> nor the settling of \<open>r0\<close>.
  \<open>waiting e r0 s\<close> says that in \<open>s\<close> the item exists and \<open>r0\<close> is the one request in
  flight for a toggle of it.
\<close>

definition quiet :: "nat \<Rightarrow> nat \<Rightarrow> event \<Rightarrow> bool" where
  "quiet e r0 ev =
     (case ev of ToggleClick e' now \<Rightarrow> e' \<noteq> e | Resolve r rep \<Rightarrow> r \<noteq> r0 | _ \<Rightarrow> True)"

definition waiting :: "nat \<Rightarrow> nat \<Rightarrow> app \<Rightarrow> bool" where
  "waiting e r0 s =
     (e < nextElem s \<and> r0 < nextReq s \<and> pending s r0 = Some (ToggleK e)
      \<and> (\<forall>r. pending s r = Some (ToggleK e) \<longrightarrow> r = r0))"

section \<open>Properties\<close>

subsection \<open>Basic facts\<close>

lemmas io_defs = showLoading_def hideLoading_def showToast_def alert_def apiRequest_def settle_def
  saveTodo_def updateTodo_def deleteTodo_def

lemma run_Nil: "run [] s = s"
  by (simp add: run_def)

lemma run_Cons: "run (ev # evs) s = run evs (step ev s)"
  by (simp add: run_def)

lemma filterTask_eq:
  "filterTask f l =
     l\<lparr>hidden := (f = ''active'' \<and> completed l \<or> f = ''completed'' \<and> \<not> completed l)\<rparr>"
  by (simp add: filterTask_def Let_def)

lemma filterTask_idem: "filterTask f (filterTask f l) = filterTask f l"
  by (simp add: filterTask_eq)

lemma toggleCompleted_eq:
  "toggleCompleted now l =
     l\<lparr>completed := \<not> completed l,
       completedTime := (if completed l then None else Some (Num now)),
       timeText := (if completed l then None else Some (Num now)),
       timeDisplay := \<not> completed l\<rparr>"
  by (simp add: toggleCompleted_def Let_def)

lemma backendId_toggleCompleted: "backendId (toggleCompleted now l) = backendId l"
  by (simp add: backendId_def toggleCompleted_eq)

lemma forEachTask_apply:
  assumes "\<And>x. f (f x) = f x"
  shows "forEachTask f es h e = (if e \<in> set es then f (h e) else h e)"
  using assms by (induction es arbitrary: h) auto

lemma applyFilter_eq:
  "applyFilter s =
     s\<lparr>elems := (\<lambda>e. if e \<in> set (todoList s) then filterTask (currentFilter s) (elems s e)
                       else elems s e)\<rparr>"
  by (simp add: applyFilter_def fun_eq_iff forEachTask_apply filterTask_idem)

lemma visible_applyFilter:
  "visible (applyFilter s) = spec_visible (currentFilter s) (elems s) (todoList s)"
  unfolding visible_def spec_visible_def
  by (auto simp add: applyFilter_eq filterTask_eq intro: filter_cong)

lemma count_completed:
  "length xs - length (filter (\<lambda>x. \<not> P x) xs) = length (filter P xs)"
  using sum_length_filter_compl [of P xs] by simp

lemma all_dropWhile: "(\<forall>x\<in>set (dropWhile P s). P x) = (\<forall>x\<in>set s. P x)"
  by (induction s) auto

lemma trim_empty_iff: "trim s = [] \<longleftrightarrow> list_all is_space s"
  by (simp add: trim_def list_all_iff all_dropWhile)

subsection \<open>The sample list, evaluated\<close>

lemma loaded_todoList: "todoList loaded = [0, 1]"
  and loaded_nextElem: "nextElem loaded = 2"
  and loaded_filter: "currentFilter loaded = ''all''"
  and loaded_nextReq: "nextReq loaded = 1"
  and loaded_calls: "calls loaded = [GetTodos]"
  and loaded_nextGroup: "nextGroup loaded = 0"
  and loaded_loading: "loading loaded = False"
  and loaded_notices: "notices loaded = []"
  and loaded_input: "inputValue loaded = []"
  and loaded_count: "taskCount loaded = (2, 1, 1)"
  and loaded_pending: "pending loaded r = None"
  and loaded_groups: "groups loaded g = None"
  by (simp_all add: loaded_def run_def init_def todoA_def todoB_def loadTodos_def io_defs
      resolve_def createTodoElement_def updateTaskCounter_def applyFilter_eq Let_def)

lemma loaded_elem0:
  "elems loaded 0 = \<lparr>todoId = Some ''1'', taskText = ''A'',
     createdAt = Some ''2026-02-03T08:00:00'', completedTime = None, completed = False,
     editing = False, hidden = False, contentText = ''A'', editValue = ''A'',
     timeText = None, timeDisplay = False\<rparr>"
  and loaded_elem1:
  "elems loaded (Suc 0) = \<lparr>todoId = Some ''2'', taskText = ''B'',
     createdAt = Some ''2026-02-03T09:00:00'', completedTime = Some (Num 2000),
     completed = True, editing = False, hidden = False, contentText = ''B'',
     editValue = ''B'', timeText = Some (Num 2000), timeDisplay = True\<rparr>"
  by (simp_all add: loaded_def run_def init_def todoA_def todoB_def loadTodos_def io_defs
      resolve_def createTodoElement_def updateTaskCounter_def applyFilter_eq filterTask_eq Let_def)

lemmas loaded_simps = loaded_todoList loaded_nextElem loaded_filter loaded_nextReq loaded_calls
  loaded_nextGroup loaded_loading loaded_notices loaded_input loaded_count loaded_pending
  loaded_groups loaded_elem0 loaded_elem1

lemmas eval_simps = run_Nil run_Cons io_defs resolve_def contentDiv_click_def
  deleteButton_click_def addTodo_def clearAllTodos_def clearCompletedTodos_def awaitAll_def
  deleteEach_def awaited_def updateTaskCounter_def applyFilter_eq
  filterTask_eq toggleCompleted_eq backendId_def removeLi_def createTodoElement_def Let_def

subsection \<open>One toggle and the outcome of its request\<close>

lemma toggle_issue:
  assumes "\<not> editing (elems s e)" and "backendId (elems s e) = Some i"
  shows "contentDiv_click e now s =
           updateTodo i (taskText (elems s e)) (\<not> completed (elems s e)) (ToggleK e)
             (s\<lparr>elems := (elems s)(e := toggleCompleted now (elems s e))\<rparr>)"
  using assms
  by (simp add: contentDiv_click_def Let_def backendId_toggleCompleted) (simp add: toggleCompleted_eq)

lemma toggle_issue_fields:
  assumes "\<not> editing (elems s e)" and "backendId (elems s e) = Some i"
  shows "elems (contentDiv_click e now s) = (elems s)(e := toggleCompleted now (elems s e))"
    and "pending (contentDiv_click e now s) = (pending s)(nextReq s \<mapsto> ToggleK e)"
    and "nextReq (contentDiv_click e now s) = Suc (nextReq s)"
    and "calls (contentDiv_click e now s) =
           calls s @ [PutTodo i (taskText (elems s e)) (\<not> completed (elems s e))]"
    and "todoList (contentDiv_click e now s) = todoList s"
    and "currentFilter (contentDiv_click e now s) = currentFilter s"
  unfolding toggle_issue [OF assms] by (simp_all add: io_defs)

lemma resolve_ToggleK:
  assumes "pending s r = Some (ToggleK e)"
  shows "elems (resolve r rep s) x =
           (let l = (if x = e \<and> rep = Failed
                     then (elems s x)\<lparr>completed := \<not> completed (elems s x)\<rparr>
                     else elems s x)
            in if x \<in> set (todoList s) then filterTask (currentFilter s) l else l)"
    and "pending (resolve r rep s) = (pending s)(r := None)"
    and "nextReq (resolve r rep s) = nextReq s"
    and "todoList (resolve r rep s) = todoList s"
    and "currentFilter (resolve r rep s) = currentFilter s"
    and "calls (resolve r rep s) = calls s"
  using assms
  by (cases rep; simp add: resolve_def io_defs updateTaskCounter_def applyFilter_eq Let_def)+

lemma toggle_round:
  assumes "\<not> editing (elems s e)" and "backendId (elems s e) = Some i"
  shows "completed (elems (run [ToggleClick e now, Resolve (nextReq s) rep] s) e) =
           (if rep = Failed then completed (elems s e) else \<not> completed (elems s e))"
    and "completedTime (elems (run [ToggleClick e now, Resolve (nextReq s) rep] s) e) =
           (if completed (elems s e) then None else Some (Num now))"
    and "\<not> editing (elems (run [ToggleClick e now, Resolve (nextReq s) rep] s) e)"
    and "backendId (elems (run [ToggleClick e now, Resolve (nextReq s) rep] s) e) = Some i"
    and "nextReq (run [ToggleClick e now, Resolve (nextReq s) rep] s) = Suc (nextReq s)"
proof -
  let ?s1 = "contentDiv_click e now s"
  have p: "pending ?s1 (nextReq s) = Some (ToggleK e)"
    by (simp add: toggle_issue_fields(2) [OF assms])
  have r: "run [ToggleClick e now, Resolve (nextReq s) rep] s = resolve (nextReq s) rep ?s1"
    by (simp add: run_Cons run_Nil)
  note f = resolve_ToggleK [OF p] toggle_issue_fields [OF assms]
  show "completed (elems (run [ToggleClick e now, Resolve (nextReq s) rep] s) e) =
           (if rep = Failed then completed (elems s e) else \<not> completed (elems s e))"
    unfolding r by (simp add: f filterTask_eq toggleCompleted_eq Let_def)
  show "completedTime (elems (run [ToggleClick e now, Resolve (nextReq s) rep] s) e) =
           (if completed (elems s e) then None else Some (Num now))"
    unfolding r by (simp add: f filterTask_eq toggleCompleted_eq Let_def)
  show "\<not> editing (elems (run [ToggleClick e now, Resolve (nextReq s) rep] s) e)"
    unfolding r using assms(1) by (simp add: f filterTask_eq toggleCompleted_eq Let_def)
  show "backendId (elems (run [ToggleClick e now, Resolve (nextReq s) rep] s) e) = Some i"
    unfolding r using assms(2)
    by (simp add: f filterTask_eq toggleCompleted_eq Let_def backendId_def)
  show "nextReq (run [ToggleClick e now, Resolve (nextReq s) rep] s) = Suc (nextReq s)"
    unfolding r by (simp add: f)
qed

subsection \<open>Rollback of a failed toggle\<close>

text \<open>
  The click on a task with an identifier, not being edited, sends the replace request
  with the flipped value and shows the flipped value; when that request fails at once,
  the flag is back at its old value.
\<close>

lemma toggle_then_failure:
  assumes "\<not> editing (elems s e)" and "backendId (elems s e) = Some i"
  shows "calls (step (ToggleClick e now) s) =
           calls s @ [PutTodo i (taskText (elems s e)) (\<not> completed (elems s e))]
       \<and> pending (step (ToggleClick e now) s) (nextReq s) = Some (ToggleK e)
       \<and> completed (elems (step (ToggleClick e now) s) e) = (\<not> completed (elems s e))
       \<and> completed (elems (run [ToggleClick e now, Resolve (nextReq s) Failed] s) e)
           = completed (elems s e)"
  using toggle_round(1) [OF assms, of now Failed]
  by (simp add: toggle_issue_fields [OF assms] toggleCompleted_eq)

subsection \<open>Adding with a blank title\<close>

text \<open>
  Claim C6. Add with an empty or whitespace-only title is rejected before any remote
  interaction: no request is sent and the task list is unchanged. Only the alert is shown.
\<close>

theorem add_blank_title_rejected:
  assumes "list_all is_space (inputValue s)"
  shows "calls (step AddClick s) = calls s
       \<and> pending (step AddClick s) = pending s
       \<and> todoList (step AddClick s) = todoList s
       \<and> elems (step AddClick s) = elems s
       \<and> notices (step AddClick s) = notices s @ [AlertEnterTodo]"
  using assms by (simp add: addTodo_def trim_empty_iff alert_def)

text \<open>The input of three spaces, on the sample list.\<close>

theorem add_blank_title_rejected_witness:
  "list_all is_space (inputValue (step (TypeInput ''   '') loaded))
   \<and> calls (run [TypeInput ''   '', AddClick] loaded) = [GetTodos]
   \<and> pending (run [TypeInput ''   '', AddClick] loaded) = pending loaded
   \<and> todoList (run [TypeInput ''   '', AddClick] loaded) = [0, 1]"
proof -
  have h: "list_all is_space (inputValue (step (TypeInput ''   '') loaded))"
    by (simp add: is_space_def)
  show ?thesis
    using add_blank_title_rejected [OF h] h by (simp add: run_Cons run_Nil loaded_simps)
qed

subsection \<open>The filter\<close>

text \<open>
  Claim C7. For every list and every filter among \<^verbatim>\<open>all\<close>, \<^verbatim>\<open>active\<close> and
  \<^verbatim>\<open>completed\<close>, the tasks left visible by \<^verbatim>\<open>_applyFilter\<close> are exactly those the
  specification's FilterEngine keeps: under \<^verbatim>\<open>active\<close> the tasks that are not completed,
  under \<^verbatim>\<open>completed\<close> the completed ones, under \<^verbatim>\<open>all\<close> every task; they stand in the
  order of the list, and the list and the completion flags are as before.
\<close>

theorem applyFilter_shows_spec_visible:
  assumes "currentFilter s \<in> {''all'', ''active'', ''completed''}"
  shows "visible (applyFilter s) = spec_visible (currentFilter s) (elems s) (todoList s)
       \<and> subseq (visible (applyFilter s)) (todoList s)
       \<and> todoList (applyFilter s) = todoList s
       \<and> (\<forall>e. completed (elems (applyFilter s) e) = completed (elems s e))"
  by (simp add: visible_applyFilter spec_visible_def) (simp add: applyFilter_eq filterTask_eq)

text \<open>The scenario of the specification: under \<^verbatim>\<open>active\<close> only task \<^verbatim>\<open>A\<close> is visible.\<close>

theorem applyFilter_shows_spec_visible_witness:
  "currentFilter (loaded\<lparr>currentFilter := ''active''\<rparr>) \<in> {''all'', ''active'', ''completed''}
   \<and> visible (applyFilter (loaded\<lparr>currentFilter := ''active''\<rparr>)) = [0]
   \<and> subseq (visible (applyFilter (loaded\<lparr>currentFilter := ''active''\<rparr>))) [0, 1]"
proof -
  have h: "currentFilter (loaded\<lparr>currentFilter := ''active''\<rparr>) \<in> {''all'', ''active'', ''completed''}"
    by simp
  show ?thesis
    using applyFilter_shows_spec_visible [OF h] h
    by (simp add: spec_visible_def loaded_simps)
qed

subsection \<open>Deleting an item that has no identifier\<close>

text \<open>
  Claim C10. For a list item that carries no backend identifier, the delete command
  sends no request and still removes the item from the list, recounts the tasks and
  applies the filter again: the removal is local.
\<close>

theorem delete_without_identifier_is_local:
  assumes "backendId (elems s e) = None"
  shows "calls (step (DeleteClick e) s) = calls s
       \<and> pending (step (DeleteClick e) s) = pending s
       \<and> todoList (step (DeleteClick e) s) = removeAll e (todoList s)
       \<and> taskCount (step (DeleteClick e) s) =
           (length (removeAll e (todoList s)),
            length (filter (\<lambda>x. \<not> completed (elems s x)) (removeAll e (todoList s))),
            length (filter (\<lambda>x. completed (elems s x)) (removeAll e (todoList s))))
       \<and> visible (step (DeleteClick e) s) =
           spec_visible (currentFilter s) (elems s) (removeAll e (todoList s))"
proof -
  let ?s1 = "updateTaskCounter (removeLi e s)"
  have st: "step (DeleteClick e) s = applyFilter ?s1"
    using assms by (simp add: deleteButton_click_def)
  have l1: "todoList ?s1 = removeAll e (todoList s)" and e1: "elems ?s1 = elems s"
    and f1: "currentFilter ?s1 = currentFilter s" and c1: "calls ?s1 = calls s"
    and p1: "pending ?s1 = pending s"
    by (simp_all add: updateTaskCounter_def removeLi_def Let_def)
  have cnt: "taskCount ?s1 =
           (length (removeAll e (todoList s)),
            length (filter (\<lambda>x. \<not> completed (elems s x)) (removeAll e (todoList s))),
            length (filter (\<lambda>x. completed (elems s x)) (removeAll e (todoList s))))"
    by (simp add: updateTaskCounter_def removeLi_def Let_def count_completed)
  show ?thesis
    unfolding st visible_applyFilter l1 e1 f1
    by (simp add: applyFilter_def c1 p1 l1 cnt)
qed

theorem delete_without_identifier_is_local_witness:
  "backendId (elems unsaved 1) = None
   \<and> calls (step (DeleteClick 1) unsaved) = [GetTodos]
   \<and> todoList (step (DeleteClick 1) unsaved) = [0]
   \<and> taskCount (step (DeleteClick 1) unsaved) = (1, 1, 0)
   \<and> visible (step (DeleteClick 1) unsaved) = [0]"
proof -
  have h: "backendId (elems unsaved 1) = None"
    by (simp add: unsaved_def backendId_def)
  show ?thesis
    using delete_without_identifier_is_local [OF h] h
    by (simp add: unsaved_def spec_visible_def loaded_simps)
qed

subsection \<open>What a failed toggle leaves behind\<close>

text \<open>
  Claim C4, evaluated on the sample list. Task \<^verbatim>\<open>A\<close> is not completed and has no
  completion time; after a toggle whose replace request fails, its flag is restored but
  the completion time set by the click, and the time display, stay. Task \<^verbatim>\<open>B\<close> is
  completed with a completion time; after a failed toggle it is completed again with the
  completion time gone. The \<^verbatim>\<open>catch\<close> branch, commented as rolling the state back,
  flips the class only.
\<close>

theorem failed_toggle_leaves_completion_time:
  "completed (elems loaded 0) = False \<and> completedTime (elems loaded 0) = None
   \<and> timeDisplay (elems loaded 0) = False
   \<and> completed (elems (run [ToggleClick 0 5000, Resolve 1 Failed] loaded) 0) = False
   \<and> completedTime (elems (run [ToggleClick 0 5000, Resolve 1 Failed] loaded) 0) = Some (Num 5000)
   \<and> timeDisplay (elems (run [ToggleClick 0 5000, Resolve 1 Failed] loaded) 0) = True
   \<and> completed (elems loaded 1) = True \<and> completedTime (elems loaded 1) = Some (Num 2000)
   \<and> completed (elems (run [ToggleClick 1 5000, Resolve 1 Failed] loaded) 1) = True
   \<and> completedTime (elems (run [ToggleClick 1 5000, Resolve 1 Failed] loaded) 1) = None"
  by (simp add: eval_simps loaded_simps)

subsection \<open>Toggling twice\<close>

text \<open>
  Claim C8, as the code has it. Toggling a task twice in succession, both replace
  requests succeeding, returns the task to its original \<^verbatim>\<open>completed\<close> value. It is left
  with no completion time when it was not completed at first; a task that was completed
  at first is completed again and carries the time of the second click.
\<close>

theorem toggle_twice_round_trip:
  assumes "\<not> editing (elems s e)" and "backendId (elems s e) = Some i"
  shows "completed (elems (run [ToggleClick e n1, Resolve (nextReq s) (Returned b1),
                                ToggleClick e n2, Resolve (Suc (nextReq s)) (Returned b2)] s) e)
           = completed (elems s e)
       \<and> completedTime (elems (run [ToggleClick e n1, Resolve (nextReq s) (Returned b1),
                                ToggleClick e n2, Resolve (Suc (nextReq s)) (Returned b2)] s) e)
           = (if completed (elems s e) then Some (Num n2) else None)"
proof -
  let ?s2 = "run [ToggleClick e n1, Resolve (nextReq s) (Returned b1)] s"
  have run4: "run [ToggleClick e n1, Resolve (nextReq s) (Returned b1),
                   ToggleClick e n2, Resolve (Suc (nextReq s)) (Returned b2)] s
              = run [ToggleClick e n2, Resolve (nextReq ?s2) (Returned b2)] ?s2"
    unfolding toggle_round(5) [OF assms] by (simp add: run_Cons run_Nil)
  have e2: "\<not> editing (elems ?s2 e)" and i2: "backendId (elems ?s2 e) = Some i"
    and c2: "completed (elems ?s2 e) = (\<not> completed (elems s e))"
    using toggle_round(1,3,4) [OF assms, of n1 "Returned b1"] by simp_all
  show ?thesis
    unfolding run4 using toggle_round(1,2) [OF e2 i2, of n2 "Returned b2"] c2 by simp
qed

theorem toggle_twice_round_trip_witness:
  "\<not> editing (elems loaded 0) \<and> backendId (elems loaded 0) = Some ''1''
   \<and> completed (elems (run [ToggleClick 0 5000, Resolve 1 (Returned Other),
                             ToggleClick 0 6000, Resolve 2 (Returned Other)] loaded) 0) = False
   \<and> completedTime (elems (run [ToggleClick 0 5000, Resolve 1 (Returned Other),
                             ToggleClick 0 6000, Resolve 2 (Returned Other)] loaded) 0) = None"
proof -
  have h1: "\<not> editing (elems loaded 0)"
    by (simp add: loaded_simps)
  have h2: "backendId (elems loaded 0) = Some ''1''"
    by (simp add: loaded_simps backendId_def)
  show ?thesis
    using toggle_twice_round_trip [OF h1 h2, of 5000 Other 6000 Other] h1 h2
    by (simp add: loaded_simps numeral_2_eq_2)
qed

text \<open>
  Claim C8 as stated fails for a task that is completed at first: task \<^verbatim>\<open>B\<close> of the sample
  list, toggled at 5000 and at 6000, ends completed with the completion time 6000.
\<close>

theorem toggle_twice_completed_task_keeps_time:
  "completed (elems loaded 1) = True
   \<and> completed (elems (run [ToggleClick 1 5000, Resolve 1 (Returned Other),
                             ToggleClick 1 6000, Resolve 2 (Returned Other)] loaded) 1) = True
   \<and> completedTime (elems (run [ToggleClick 1 5000, Resolve 1 (Returned Other),
                             ToggleClick 1 6000, Resolve 2 (Returned Other)] loaded) 1)
       = Some (Num 6000)"
  by (simp add: eval_simps loaded_simps)

subsection \<open>Two toggles in flight at once\<close>

lemma two_toggles:
  assumes "\<not> editing (elems s e)" and "backendId (elems s e) = Some i"
  shows "elems (run [ToggleClick e n1, ToggleClick e n2] s) e =
           toggleCompleted n2 (toggleCompleted n1 (elems s e))"
    and "calls (run [ToggleClick e n1, ToggleClick e n2] s) =
           calls s @ [PutTodo i (taskText (elems s e)) (\<not> completed (elems s e)),
                      PutTodo i (taskText (elems s e)) (completed (elems s e))]"
    and "pending (run [ToggleClick e n1, ToggleClick e n2] s) =
           (pending s)(nextReq s \<mapsto> ToggleK e, Suc (nextReq s) \<mapsto> ToggleK e)"
    and "todoList (run [ToggleClick e n1, ToggleClick e n2] s) = todoList s"
    and "currentFilter (run [ToggleClick e n1, ToggleClick e n2] s) = currentFilter s"
proof -
  let ?s1 = "contentDiv_click e n1 s"
  note f1 = toggle_issue_fields [OF assms, of n1]
  have e1: "\<not> editing (elems ?s1 e)" and i1: "backendId (elems ?s1 e) = Some i"
    using assms by (simp_all add: f1 toggleCompleted_eq backendId_def)
  note f2 = toggle_issue_fields [OF e1 i1, of n2]
  have r: "run [ToggleClick e n1, ToggleClick e n2] s = contentDiv_click e n2 ?s1"
    by (simp add: run_Cons run_Nil)
  show "elems (run [ToggleClick e n1, ToggleClick e n2] s) e =
           toggleCompleted n2 (toggleCompleted n1 (elems s e))"
    unfolding r by (simp add: f2 f1)
  show "calls (run [ToggleClick e n1, ToggleClick e n2] s) =
           calls s @ [PutTodo i (taskText (elems s e)) (\<not> completed (elems s e)),
                      PutTodo i (taskText (elems s e)) (completed (elems s e))]"
    unfolding r by (simp add: f2 f1 toggleCompleted_eq)
  show "pending (run [ToggleClick e n1, ToggleClick e n2] s) =
           (pending s)(nextReq s \<mapsto> ToggleK e, Suc (nextReq s) \<mapsto> ToggleK e)"
    unfolding r by (simp add: f2 f1)
  show "todoList (run [ToggleClick e n1, ToggleClick e n2] s) = todoList s"
    unfolding r by (simp add: f2 f1)
  show "currentFilter (run [ToggleClick e n1, ToggleClick e n2] s) = currentFilter s"
    unfolding r by (simp add: f2 f1)
qed

lemma resolve_two:
  assumes "pending s r1 = Some (ToggleK e)" and "pending s r2 = Some (ToggleK e)" and "r1 \<noteq> r2"
  shows "completed (elems (resolve r2 rep2 (resolve r1 rep1 s)) e) =
           (if (rep1 = Failed) = (rep2 = Failed) then completed (elems s e)
            else \<not> completed (elems s e))"
proof -
  let ?s1 = "resolve r1 rep1 s"
  note f1 = resolve_ToggleK [OF assms(1)]
  have p2: "pending ?s1 r2 = Some (ToggleK e)"
    using assms by (simp add: f1)
  note f2 = resolve_ToggleK [OF p2]
  show ?thesis
    by (simp add: f2 f1 filterTask_eq Let_def)
qed

lemma two_toggles_settled:
  assumes "\<not> editing (elems s e)" and "backendId (elems s e) = Some i"
  shows "completed (elems (run [ToggleClick e n1, ToggleClick e n2,
                                Resolve (nextReq s) rep1, Resolve (Suc (nextReq s)) rep2] s) e)
           = (if (rep1 = Failed) = (rep2 = Failed) then completed (elems s e)
              else \<not> completed (elems s e))"
    and "completed (elems (run [ToggleClick e n1, ToggleClick e n2,
                                Resolve (Suc (nextReq s)) rep2, Resolve (nextReq s) rep1] s) e)
           = (if (rep1 = Failed) = (rep2 = Failed) then completed (elems s e)
              else \<not> completed (elems s e))"
proof -
  let ?s2 = "run [ToggleClick e n1, ToggleClick e n2] s"
  note t = two_toggles [OF assms, of n1 n2]
  have p1: "pending ?s2 (nextReq s) = Some (ToggleK e)"
    and p2: "pending ?s2 (Suc (nextReq s)) = Some (ToggleK e)"
    by (simp_all add: t)
  have c: "completed (elems ?s2 e) = completed (elems s e)"
    by (simp add: t toggleCompleted_eq)
  have r12: "run [ToggleClick e n1, ToggleClick e n2,
                  Resolve (nextReq s) rep1, Resolve (Suc (nextReq s)) rep2] s
             = resolve (Suc (nextReq s)) rep2 (resolve (nextReq s) rep1 ?s2)"
    and r21: "run [ToggleClick e n1, ToggleClick e n2,
                  Resolve (Suc (nextReq s)) rep2, Resolve (nextReq s) rep1] s
             = resolve (nextReq s) rep1 (resolve (Suc (nextReq s)) rep2 ?s2)"
    by (simp_all add: run_Cons run_Nil)
  show "completed (elems (run [ToggleClick e n1, ToggleClick e n2,
                                Resolve (nextReq s) rep1, Resolve (Suc (nextReq s)) rep2] s) e)
           = (if (rep1 = Failed) = (rep2 = Failed) then completed (elems s e)
              else \<not> completed (elems s e))"
    unfolding r12 using resolve_two [OF p1 p2, of rep2 rep1] c by simp
  show "completed (elems (run [ToggleClick e n1, ToggleClick e n2,
                                Resolve (Suc (nextReq s)) rep2, Resolve (nextReq s) rep1] s) e)
           = (if (rep1 = Failed) = (rep2 = Failed) then completed (elems s e)
              else \<not> completed (elems s e))"
    unfolding r21 using resolve_two [OF p2 p1, of rep1 rep2] c by auto
qed

text \<open>
  Claim C1, as the code has it. Two toggles of one task issued back-to-back send both
  replace requests at once: nothing queues the second behind the first. Once both
  requests have settled, in either order, the task's \<^verbatim>\<open>completed\<close> value is the one the
  second request carried (the original value) when both requests succeed or both fail;
  when exactly one of them fails, it is the opposite value, the one the first request
  carried, since the \<^verbatim>\<open>catch\<close> branch flips whatever the class is at that moment.
\<close>

theorem overlapping_toggles_settle:
  assumes "\<not> editing (elems s e)" and "backendId (elems s e) = Some i"
  shows "calls (run [ToggleClick e n1, ToggleClick e n2] s) =
           calls s @ [PutTodo i (taskText (elems s e)) (\<not> completed (elems s e)),
                      PutTodo i (taskText (elems s e)) (completed (elems s e))]
       \<and> completed (elems (run [ToggleClick e n1, ToggleClick e n2,
                                Resolve (nextReq s) rep1, Resolve (Suc (nextReq s)) rep2] s) e)
           = (if (rep1 = Failed) = (rep2 = Failed) then completed (elems s e)
              else \<not> completed (elems s e))
       \<and> completed (elems (run [ToggleClick e n1, ToggleClick e n2,
                                Resolve (Suc (nextReq s)) rep2, Resolve (nextReq s) rep1] s) e)
           = (if (rep1 = Failed) = (rep2 = Failed) then completed (elems s e)
              else \<not> completed (elems s e))"
  using two_toggles(2) [OF assms] two_toggles_settled [OF assms] by blast

theorem overlapping_toggles_settle_witness:
  "\<not> editing (elems loaded 0) \<and> backendId (elems loaded 0) = Some ''1''
   \<and> calls (run [ToggleClick 0 5000, ToggleClick 0 6000] loaded) =
        [GetTodos, PutTodo ''1'' ''A'' True, PutTodo ''1'' ''A'' False]
   \<and> completed (elems (run [ToggleClick 0 5000, ToggleClick 0 6000,
                             Resolve 1 (Returned Other), Resolve 2 (Returned Other)] loaded) 0)
        = False
   \<and> completed (elems (run [ToggleClick 0 5000, ToggleClick 0 6000,
                             Resolve 2 (Returned Other), Resolve 1 (Returned Other)] loaded) 0)
        = False"
proof -
  have h1: "\<not> editing (elems loaded 0)"
    by (simp add: loaded_simps)
  have h2: "backendId (elems loaded 0) = Some ''1''"
    by (simp add: loaded_simps backendId_def)
  show ?thesis
    using overlapping_toggles_settle [OF h1 h2, of 5000 6000 "Returned Other" "Returned Other"]
      h1 h2
    by (simp add: loaded_simps numeral_2_eq_2)
qed

text \<open>
  Claim C1 as stated fails when the first request fails and the second succeeds: the
  second request carried \<^verbatim>\<open>completed: false\<close> for task \<^verbatim>\<open>A\<close> and succeeded, both
  requests were in flight together, and the task ends completed, the state the first
  request carried.
\<close>

theorem stale_rollback_overrides_second_toggle:
  "calls (run [ToggleClick 0 5000, ToggleClick 0 6000] loaded) =
     [GetTodos, PutTodo ''1'' ''A'' True, PutTodo ''1'' ''A'' False]
   \<and> pending (run [ToggleClick 0 5000, ToggleClick 0 6000] loaded) 1 = Some (ToggleK 0)
   \<and> pending (run [ToggleClick 0 5000, ToggleClick 0 6000] loaded) 2 = Some (ToggleK 0)
   \<and> completed (elems (run [ToggleClick 0 5000, ToggleClick 0 6000,
                             Resolve 1 Failed, Resolve 2 (Returned Other)] loaded) 0) = True"
  by (simp add: eval_simps loaded_simps)

subsection \<open>Adding a task\<close>

lemma trim_Buy_milk: "trim ''Buy milk'' = ''Buy milk''"
  by (simp add: trim_def is_space_def)

lemma resolve_AddK:
  assumes "pending s r = Some AddK"
  shows "todoList (resolve r (Returned (Item t)) s) = todoList s @ [nextElem s]"
    and "elems (resolve r (Returned (Item t)) s) (nextElem s) =
           filterTask (currentFilter s)
             \<lparr>todoId = Some (t_id t), taskText = t_title t, createdAt = t_created_at t,
              completedTime = (if t_completed t then Some (t_created_ms t) else None),
              completed = t_completed t, editing = False, hidden = False,
              contentText = t_title t, editValue = t_title t,
              timeText = (if t_completed t then Some (t_created_ms t) else None),
              timeDisplay = t_completed t\<rparr>"
    and "todoList (resolve r Failed s) = todoList s"
    and "elems (resolve r Failed s) = elems s"
  using assms
  by (simp_all add: resolve_def io_defs createTodoElement_def updateTaskCounter_def
      applyFilter_eq Let_def)

lemma addTodo_fields:
  assumes "trim (inputValue s) \<noteq> []"
  shows "todoList (addTodo s) = todoList s"
    and "elems (addTodo s) = elems s"
    and "nextElem (addTodo s) = nextElem s"
    and "currentFilter (addTodo s) = currentFilter s"
    and "calls (addTodo s) = calls s @ [PostTodo (trim (inputValue s))]"
    and "pending (addTodo s) (nextReq s) = Some AddK"
  using assms by (simp_all add: addTodo_def Let_def io_defs)

text \<open>
  Claim C2, as the code has it. Add with a title that is not blank sends the create
  request and leaves the list as it is while the request is in flight: no pending entry
  is inserted. When the request succeeds, the entry the store returned is appended at
  the end of the list; when it fails, the list is unchanged.
\<close>

theorem add_appends_confirmed_entry:
  assumes "trim (inputValue s) \<noteq> []"
  shows "todoList (step AddClick s) = todoList s
       \<and> elems (step AddClick s) = elems s
       \<and> calls (step AddClick s) = calls s @ [PostTodo (trim (inputValue s))]
       \<and> pending (step AddClick s) (nextReq s) = Some AddK
       \<and> todoList (run [AddClick, Resolve (nextReq s) (Returned (Item t))] s)
           = todoList s @ [nextElem s]
       \<and> todoId (elems (run [AddClick, Resolve (nextReq s) (Returned (Item t))] s) (nextElem s))
           = Some (t_id t)
       \<and> taskText (elems (run [AddClick, Resolve (nextReq s) (Returned (Item t))] s) (nextElem s))
           = t_title t
       \<and> completed (elems (run [AddClick, Resolve (nextReq s) (Returned (Item t))] s) (nextElem s))
           = t_completed t
       \<and> todoList (run [AddClick, Resolve (nextReq s) Failed] s) = todoList s
       \<and> elems (run [AddClick, Resolve (nextReq s) Failed] s) = elems s"
proof -
  note a = addTodo_fields [OF assms]
  note r = resolve_AddK [OF a(6)]
  have e: "elems (resolve (nextReq s) (Returned (Item t)) (addTodo s)) (nextElem s) =
             filterTask (currentFilter s)
               \<lparr>todoId = Some (t_id t), taskText = t_title t, createdAt = t_created_at t,
                completedTime = (if t_completed t then Some (t_created_ms t) else None),
                completed = t_completed t, editing = False, hidden = False,
                contentText = t_title t, editValue = t_title t,
                timeText = (if t_completed t then Some (t_created_ms t) else None),
                timeDisplay = t_completed t\<rparr>"
    using r(2) [of t] by (simp add: a)
  show ?thesis
    by (simp add: run_Cons run_Nil a r(1,3,4) e filterTask_eq)
qed

theorem add_appends_confirmed_entry_witness:
  "trim (inputValue (step (TypeInput ''Buy milk'') loaded)) \<noteq> []
   \<and> todoList (run [TypeInput ''Buy milk'', AddClick] loaded) = [0, 1]
   \<and> calls (run [TypeInput ''Buy milk'', AddClick] loaded) = [GetTodos, PostTodo ''Buy milk'']
   \<and> todoList (run [TypeInput ''Buy milk'', AddClick, Resolve 1 (Returned (Item milk))] loaded)
        = [0, 1, 2]
   \<and> todoId (elems (run [TypeInput ''Buy milk'', AddClick,
                          Resolve 1 (Returned (Item milk))] loaded) 2) = Some ''3''
   \<and> todoList (run [TypeInput ''Buy milk'', AddClick, Resolve 1 Failed] loaded) = [0, 1]"
proof -
  have h: "trim (inputValue (step (TypeInput ''Buy milk'') loaded)) \<noteq> []"
    by (simp add: trim_Buy_milk)
  show ?thesis
    using add_appends_confirmed_entry [OF h, of milk] h
    by (simp add: run_Cons run_Nil trim_Buy_milk loaded_simps milk_def numeral_2_eq_2)
qed

text \<open>
  Claim C2 as stated fails at its first step: with \<^verbatim>\<open>Buy milk\<close> typed and the create
  request in flight, the list and its items are those from before the click.
\<close>

theorem add_inserts_no_pending_entry:
  "todoList (run [TypeInput ''Buy milk'', AddClick] loaded) = todoList loaded
   \<and> elems (run [TypeInput ''Buy milk'', AddClick] loaded) = elems loaded
   \<and> calls (run [TypeInput ''Buy milk'', AddClick] loaded) = [GetTodos, PostTodo ''Buy milk'']
   \<and> pending (run [TypeInput ''Buy milk'', AddClick] loaded) 1 = Some AddK"
  by (simp add: run_Cons run_Nil addTodo_def Let_def trim_Buy_milk io_defs loaded_simps)

subsection \<open>The loading bar\<close>

lemma loading_fold_create: "loading (fold createTodoElement ts s) = loading s"
  by (induction ts arbitrary: s) (simp_all add: createTodoElement_def Let_def)

lemma loading_fold_remove: "loading (fold removeLi ts s) = loading s"
  by (induction ts arbitrary: s) (simp_all add: removeLi_def)

lemma loading_bulkDone: "loading (bulkDone b s) = loading s"
  by (cases b) (simp_all add: updateTaskCounter_def applyFilter_eq Let_def loading_fold_remove)

lemma loading_bulkFailed: "loading (bulkFailed b s) = loading s"
  by (cases b) (simp_all add: alert_def)

lemma loading_resume: "loading (resume k rep s) = loading s"
  by (induction k rep s rule: resume.induct)
     (simp_all add: updateTaskCounter_def applyFilter_eq Let_def createTodoElement_def
        removeLi_def loading_fold_create loading_bulkDone loading_bulkFailed
        split: option.split reply.split)

text \<open>
  Claim C9, as the code has it. The busy signal is one class on the loading bar, not a
  count: every request switches it on when it is sent, and every request that settles
  switches it off, whatever else is still in flight.
\<close>

theorem busy_signal_is_boolean:
  assumes "pending s r = Some k"
  shows "loading (apiRequest rq k' s) \<and> \<not> loading (step (Resolve r rep) s)"
  using assms by (simp add: resolve_def loading_resume) (simp add: io_defs)

theorem busy_signal_is_boolean_witness:
  "pending (step (ClearAllClick True) loaded) 2 = Some (AllK 0)
   \<and> loading (apiRequest (DeleteTodo ''2'') (AllK 0) (step (ClearAllClick True) loaded))
   \<and> \<not> loading (step (Resolve 2 Failed) (step (ClearAllClick True) loaded))"
proof -
  have h: "pending (step (ClearAllClick True) loaded) 2 = Some (AllK 0)"
    by (simp add: eval_simps loaded_simps)
  show ?thesis
    using busy_signal_is_boolean [OF h, of "DeleteTodo ''2''" "AllK 0" Failed] h by simp
qed

text \<open>
  Claim C9 as stated fails as soon as two requests overlap: of the two deletes that
  Clear All sends for the sample list, the first to settle switches the bar off while the
  second is still in flight.
\<close>

theorem busy_signal_off_with_call_in_flight:
  "calls (step (ClearAllClick True) loaded) = [GetTodos, DeleteTodo ''1'', DeleteTodo ''2'']
   \<and> loading (step (ClearAllClick True) loaded) = True
   \<and> pending (run [ClearAllClick True, Resolve 1 (Returned Other)] loaded) 2 = Some (AllK 0)
   \<and> loading (run [ClearAllClick True, Resolve 1 (Returned Other)] loaded) = False"
  by (simp add: eval_simps loaded_simps)

subsection \<open>Clear All and Clear Completed\<close>

text \<open>The deletes are all sent before anything is awaited.\<close>

lemma deleteEach_Nil: "deleteEach g [] s = s"
  by (simp add: deleteEach_def)

lemma deleteEach_Cons:
  "deleteEach g (e # es) s =
     deleteEach g es (case backendId (elems s e) of
                        Some i \<Rightarrow> deleteTodo i (AllK g) s
                      | None \<Rightarrow> s)"
  by (simp add: deleteEach_def)

lemma deleteEach_state:
  "elems (deleteEach g es s) = elems s
   \<and> todoList (deleteEach g es s) = todoList s
   \<and> groups (deleteEach g es s) = groups s
   \<and> nextGroup (deleteEach g es s) = nextGroup s
   \<and> nextReq (deleteEach g es s) = nextReq s + awaited s es
   \<and> calls (deleteEach g es s) =
       calls s @ map DeleteTodo (List.map_filter (\<lambda>e. backendId (elems s e)) es)
   \<and> (\<forall>r. pending (deleteEach g es s) r =
         (if nextReq s \<le> r \<and> r < nextReq s + awaited s es then Some (AllK g)
          else pending s r))"
proof (induction es arbitrary: s)
  case Nil
  show ?case by (auto simp add: deleteEach_Nil awaited_def)
next
  case (Cons e es)
  show ?case
  proof (cases "backendId (elems s e)")
    case None
    then show ?thesis
      using Cons.IH [of s] by (simp add: deleteEach_Cons awaited_def)
  next
    case (Some i)
    let ?s1 = "deleteTodo i (AllK g) s"
    have e1: "elems ?s1 = elems s" and l1: "todoList ?s1 = todoList s"
      and g1: "groups ?s1 = groups s" and n1: "nextGroup ?s1 = nextGroup s"
      and r1: "nextReq ?s1 = Suc (nextReq s)" and c1: "calls ?s1 = calls s @ [DeleteTodo i]"
      and p1: "pending ?s1 = (pending s)(nextReq s \<mapsto> AllK g)"
      by (simp_all add: io_defs)
    have a1: "awaited ?s1 es = awaited s es"
      by (simp add: awaited_def e1)
    have a: "awaited s (e # es) = Suc (awaited s es)"
      using Some by (simp add: awaited_def)
    show ?thesis
      using Cons.IH [of ?s1] Some
      by (auto simp add: deleteEach_Cons e1 l1 g1 n1 r1 c1 p1 a1 a)
  qed
qed

lemma todoList_fold_removeLi:
  "todoList (fold removeLi ts s) = filter (\<lambda>x. x \<notin> set ts) (todoList s)"
proof (induction ts arbitrary: s)
  case Nil
  show ?case by simp
next
  case (Cons t ts)
  show ?case
    by (simp add: Cons.IH) (auto simp add: removeLi_def removeAll_filter_not_eq intro: filter_cong)
qed

lemma todoList_bulkDone:
  "todoList (bulkDone b s) =
     (case b of ClearAllB \<Rightarrow> [] | ClearCompletedB ts \<Rightarrow> filter (\<lambda>x. x \<notin> set ts) (todoList s))"
  by (cases b) (simp_all add: updateTaskCounter_def applyFilter_eq Let_def todoList_fold_removeLi)

lemma todoList_bulkFailed: "todoList (bulkFailed b s) = todoList s"
  and groups_bulkFailed: "groups (bulkFailed b s) = groups s"
  and pending_bulkFailed: "pending (bulkFailed b s) = pending s"
  by (cases b; simp add: alert_def)+

lemma groups_fold_removeLi: "groups (fold removeLi ts s) = groups s"
  and calls_fold_removeLi: "calls (fold removeLi ts s) = calls s"
  and pending_fold_removeLi: "pending (fold removeLi ts s) = pending s"
  by (induction ts arbitrary: s; simp add: removeLi_def)+

lemma groups_bulkDone: "groups (bulkDone b s) = groups s"
  and pending_bulkDone: "pending (bulkDone b s) = pending s"
  by (cases b; simp add: updateTaskCounter_def applyFilter_eq Let_def
        groups_fold_removeLi pending_fold_removeLi)+

lemma resolve_AllK_state:
  assumes "pending s r = Some (AllK g)"
  shows "resolve r rep s =
           resume (AllK g) rep (settle rep (s\<lparr>pending := (pending s)(r := None)\<rparr>))"
  using assms by (simp add: resolve_def)

lemma settle_fields:
  "pending (settle rep s) = pending s"
  "groups (settle rep s) = groups s"
  "todoList (settle rep s) = todoList s"
  "elems (settle rep s) = elems s"
  by (cases rep; simp add: io_defs)+

lemma resolve_AllK_dead:
  assumes "pending s r = Some (AllK g)" and "groups s g = None"
  shows "pending (resolve r rep s) = (pending s)(r := None)"
    and "groups (resolve r rep s) = groups s"
    and "todoList (resolve r rep s) = todoList s"
  using assms(2) unfolding resolve_AllK_state [OF assms(1)]
  by (simp_all add: settle_fields)

lemma resolve_AllK_failed:
  assumes "pending s r = Some (AllK g)" and "groups s g = Some grp"
  shows "pending (resolve r Failed s) = (pending s)(r := None)"
    and "groups (resolve r Failed s) = (groups s)(g := None)"
    and "todoList (resolve r Failed s) = todoList s"
  using assms(2) unfolding resolve_AllK_state [OF assms(1)]
  by (simp_all add: settle_fields todoList_bulkFailed groups_bulkFailed pending_bulkFailed)

lemma resolve_AllK_more:
  assumes "pending s r = Some (AllK g)" and "groups s g = Some grp" and "1 < g_left grp"
  shows "pending (resolve r (Returned b) s) = (pending s)(r := None)"
    and "groups (resolve r (Returned b) s) = (groups s)(g \<mapsto> grp\<lparr>g_left := g_left grp - 1\<rparr>)"
    and "todoList (resolve r (Returned b) s) = todoList s"
  using assms(2,3) unfolding resolve_AllK_state [OF assms(1)]
  by (simp_all add: settle_fields)

lemma resolve_AllK_last:
  assumes "pending s r = Some (AllK g)" and "groups s g = Some grp" and "g_left grp \<le> 1"
  shows "todoList (resolve r (Returned b) s) = todoList (bulkDone (g_then grp) s)"
  using assms(2,3) unfolding resolve_AllK_state [OF assms(1)]
  by (simp add: settle_fields todoList_bulkDone split: bulk.split)


text \<open>The promises of one \<^verbatim>\<open>Promise.all\<close> settle one after the other, in the order \<open>rs\<close>.\<close>

lemma settled_group_ignores:
  assumes "groups s g = None" and "\<forall>r\<in>set rs. pending s r = Some (AllK g)" and "distinct rs"
  shows "todoList (run (map (\<lambda>r. Resolve r (reps r)) rs) s) = todoList s"
  using assms
proof (induction rs arbitrary: s)
  case Nil
  show ?case by (simp add: run_Nil)
next
  case (Cons r rs)
  let ?s1 = "resolve r (reps r) s"
  have p: "pending s r = Some (AllK g)"
    using Cons.prems(2) by simp
  note d = resolve_AllK_dead [OF p Cons.prems(1)]
  have "todoList (run (map (\<lambda>r. Resolve r (reps r)) rs) ?s1) = todoList ?s1"
  proof (rule Cons.IH)
    show "groups ?s1 g = None"
      by (simp add: d Cons.prems(1))
    show "\<forall>x\<in>set rs. pending ?s1 x = Some (AllK g)"
      using Cons.prems(2,3) by (auto simp add: d)
    show "distinct rs"
      using Cons.prems(3) by simp
  qed
  then show ?case
    by (simp add: run_Cons d)
qed

lemma live_group_settles:
  assumes "groups s g = Some grp" and "\<forall>r\<in>set rs. pending s r = Some (AllK g)"
    and "distinct rs" and "length rs \<le> g_left grp"
  shows "todoList (run (map (\<lambda>r. Resolve r (reps r)) rs) s) =
           (if (\<forall>r\<in>set rs. reps r \<noteq> Failed) \<and> length rs = g_left grp \<and> rs \<noteq> []
            then todoList (bulkDone (g_then grp) s) else todoList s)"
  using assms
proof (induction rs arbitrary: s grp)
  case Nil
  show ?case by (simp add: run_Nil)
next
  case (Cons r rs)
  let ?s1 = "resolve r (reps r) s"
  have p: "pending s r = Some (AllK g)"
    using Cons.prems(2) by simp
  have rest: "\<forall>x\<in>set rs. pending s x = Some (AllK g)" and nr: "r \<notin> set rs" and dr: "distinct rs"
    using Cons.prems(2,3) by simp_all
  show ?case
  proof (cases "reps r")
    case Failed
    note f = resolve_AllK_failed [OF p Cons.prems(1)]
    have "todoList (run (map (\<lambda>r. Resolve r (reps r)) rs) (resolve r Failed s))
            = todoList (resolve r Failed s)"
    proof (rule settled_group_ignores [where g = g])
      show "groups (resolve r Failed s) g = None"
        by (simp add: f)
      show "\<forall>x\<in>set rs. pending (resolve r Failed s) x = Some (AllK g)"
        using rest nr by (auto simp add: f)
      show "distinct rs" by (rule dr)
    qed
    then show ?thesis
      using Failed by (simp add: run_Cons f)
  next
    case (Returned b)
    show ?thesis
    proof (cases "1 < g_left grp")
      case True
      note m = resolve_AllK_more [OF p Cons.prems(1) True, of b]
      let ?grp1 = "grp\<lparr>g_left := g_left grp - 1\<rparr>"
      have ih: "todoList (run (map (\<lambda>r. Resolve r (reps r)) rs) (resolve r (Returned b) s)) =
           (if (\<forall>r\<in>set rs. reps r \<noteq> Failed) \<and> length rs = g_left ?grp1 \<and> rs \<noteq> []
            then todoList (bulkDone (g_then ?grp1) (resolve r (Returned b) s))
            else todoList (resolve r (Returned b) s))"
      proof (rule Cons.IH)
        show "groups (resolve r (Returned b) s) g = Some ?grp1"
          by (simp add: m)
        show "\<forall>x\<in>set rs. pending (resolve r (Returned b) s) x = Some (AllK g)"
          using rest nr by (auto simp add: m)
        show "distinct rs" by (rule dr)
        show "length rs \<le> g_left ?grp1"
          using Cons.prems(4) by simp
      qed
      have bd: "todoList (bulkDone (g_then grp) (resolve r (Returned b) s))
                  = todoList (bulkDone (g_then grp) s)"
        by (simp add: todoList_bulkDone m split: bulk.split)
      have len: "(length rs = g_left grp - 1 \<and> rs \<noteq> []) = (length (r # rs) = g_left grp)"
        using True by (cases rs) auto
      show ?thesis
        using Returned ih len by (simp add: run_Cons bd m)
    next
      case False
      then have le: "g_left grp \<le> 1" by simp
      have rs: "rs = []"
        using Cons.prems(4) le by (cases rs) simp_all
      have one: "g_left grp = 1"
        using Cons.prems(4) le by simp
      note l = resolve_AllK_last [OF p Cons.prems(1) le, of b]
      show ?thesis
        using Returned by (simp add: run_Cons run_Nil rs one l)
    qed
  qed
qed

lemma awaitAll_calls:
  "calls (awaitAll b es s) =
     calls s @ map DeleteTodo (List.map_filter (\<lambda>e. backendId (elems s e)) es)"
proof (cases "awaited s es = 0")
  case True
  have "calls (bulkDone b (deleteEach (nextGroup s) es s)) = calls (deleteEach (nextGroup s) es s)"
    by (cases b) (simp_all add: updateTaskCounter_def applyFilter_eq Let_def calls_fold_removeLi)
  then show ?thesis
    using True deleteEach_state [of "nextGroup s" es s] by (simp add: awaitAll_def Let_def)
next
  case False
  then show ?thesis
    using deleteEach_state [of "nextGroup s" es s] by (simp add: awaitAll_def Let_def)
qed

lemma awaitAll_settled:
  assumes "distinct rs" and "set rs = {nextReq s ..< nextReq s + awaited s es}"
  shows "todoList (run (map (\<lambda>r. Resolve r (reps r)) rs) (awaitAll b es s)) =
           (if \<forall>r\<in>set rs. reps r \<noteq> Failed then todoList (bulkDone b s) else todoList s)"
proof (cases "awaited s es = 0")
  case True
  then have rs: "rs = []"
    using assms(2) by simp
  have "todoList (bulkDone b (deleteEach (nextGroup s) es s)) = todoList (bulkDone b s)"
    using deleteEach_state [of "nextGroup s" es s]
    by (simp add: todoList_bulkDone split: bulk.split)
  then show ?thesis
    using True by (simp add: rs run_Nil awaitAll_def Let_def)
next
  case False
  let ?g = "nextGroup s"
  let ?d = "deleteEach ?g es s"
  let ?grp = "\<lparr>g_left = awaited s es, g_then = b\<rparr>"
  let ?s1 = "?d\<lparr>groups := (groups ?d)(?g \<mapsto> ?grp), nextGroup := Suc ?g\<rparr>"
  note d = deleteEach_state [of ?g es s]
  have a: "awaitAll b es s = ?s1"
    using False by (simp add: awaitAll_def Let_def)
  have len: "length rs = awaited s es"
    using assms distinct_card [of rs] by simp
  have ne: "rs \<noteq> []"
    using len False by auto
  have "todoList (run (map (\<lambda>r. Resolve r (reps r)) rs) ?s1) =
           (if (\<forall>r\<in>set rs. reps r \<noteq> Failed) \<and> length rs = g_left ?grp \<and> rs \<noteq> []
            then todoList (bulkDone (g_then ?grp) ?s1) else todoList ?s1)"
  proof (rule live_group_settles [where g = ?g])
    show "groups ?s1 ?g = Some ?grp" by simp
    show "\<forall>r\<in>set rs. pending ?s1 r = Some (AllK ?g)"
      using d assms(2) by simp
    show "distinct rs" by (rule assms(1))
    show "length rs \<le> g_left ?grp" by (simp add: len)
  qed
  moreover have "todoList (bulkDone b ?s1) = todoList (bulkDone b s)"
    using d by (simp add: todoList_bulkDone split: bulk.split)
  moreover have "todoList ?s1 = todoList s"
    using d by simp
  ultimately show ?thesis
    unfolding a using len ne by simp
qed

text \<open>
  Claim C3, as the code has it. Clear All and Clear Completed send one delete for each
  targeted task with an identifier, all of them up front, so a failure of one neither
  blocks nor undoes another. The list is updated all or nothing: when every delete
  succeeds, in whatever order \<open>rs\<close> they settle, Clear All empties the list and Clear
  Completed removes the completed tasks; when any delete fails, no task leaves the list,
  those whose delete succeeded included.
\<close>

theorem bulk_clear_is_all_or_nothing:
  assumes "distinct rs"
    and "set rs = {nextReq s ..< nextReq s + awaited s (todoList s)}"
    and "distinct rs'"
    and "set rs' = {nextReq s ..<
                     nextReq s + awaited s (filter (\<lambda>e. completed (elems s e)) (todoList s))}"
  shows "calls (step (ClearAllClick True) s) =
           calls s @ map DeleteTodo (List.map_filter (\<lambda>e. backendId (elems s e)) (todoList s))
       \<and> todoList (run (ClearAllClick True # map (\<lambda>r. Resolve r (reps r)) rs) s) =
           (if \<forall>r\<in>set rs. reps r \<noteq> Failed then [] else todoList s)
       \<and> calls (step (ClearCompletedClick True) s) =
           calls s @ map DeleteTodo (List.map_filter (\<lambda>e. backendId (elems s e))
                                      (filter (\<lambda>e. completed (elems s e)) (todoList s)))
       \<and> todoList (run (ClearCompletedClick True # map (\<lambda>r. Resolve r (reps r)) rs') s) =
           (if \<forall>r\<in>set rs'. reps r \<noteq> Failed
            then filter (\<lambda>e. \<not> completed (elems s e)) (todoList s) else todoList s)"
proof -
  let ?cs = "filter (\<lambda>e. completed (elems s e)) (todoList s)"
  have all_calls: "calls (clearAllTodos True s) =
           calls s @ map DeleteTodo (List.map_filter (\<lambda>e. backendId (elems s e)) (todoList s))"
    by (simp add: clearAllTodos_def awaitAll_calls alert_def)
  have all_list: "todoList (run (map (\<lambda>r. Resolve r (reps r)) rs) (clearAllTodos True s)) =
           (if \<forall>r\<in>set rs. reps r \<noteq> Failed then [] else todoList s)"
  proof (cases "todoList s = []")
    case True
    then have "rs = []"
      using assms(2) by (simp add: awaited_def)
    then show ?thesis
      using True by (simp add: clearAllTodos_def alert_def run_Nil)
  next
    case False
    then show ?thesis
      using awaitAll_settled [OF assms(1,2), of reps ClearAllB]
      by (simp add: clearAllTodos_def todoList_bulkDone del: bulkDone.simps)
  qed
  have keep: "todoList (bulkDone (ClearCompletedB ?cs) s)
                = filter (\<lambda>e. \<not> completed (elems s e)) (todoList s)"
    unfolding todoList_bulkDone by (auto intro: filter_cong)
  have cmp_calls: "calls (clearCompletedTodos True s) =
           calls s @ map DeleteTodo (List.map_filter (\<lambda>e. backendId (elems s e)) ?cs)"
    by (simp add: clearCompletedTodos_def Let_def awaitAll_calls alert_def)
  have cmp_list: "todoList (run (map (\<lambda>r. Resolve r (reps r)) rs') (clearCompletedTodos True s)) =
           (if \<forall>r\<in>set rs'. reps r \<noteq> Failed
            then filter (\<lambda>e. \<not> completed (elems s e)) (todoList s) else todoList s)"
  proof (cases "?cs = []")
    case True
    then have "rs' = []"
      using assms(4) by (simp add: awaited_def)
    moreover have "filter (\<lambda>e. \<not> completed (elems s e)) (todoList s) = todoList s"
      using True by (simp add: filter_empty_conv)
    ultimately show ?thesis
      using True by (simp add: clearCompletedTodos_def Let_def alert_def run_Nil)
  next
    case False
    then show ?thesis
      using awaitAll_settled [OF assms(3,4), of reps "ClearCompletedB ?cs"]
      by (simp add: clearCompletedTodos_def Let_def keep del: bulkDone.simps)
  qed
  show ?thesis
    using all_calls all_list cmp_calls cmp_list by (simp add: run_Cons)
qed

text \<open>
  On the sample list: the second delete of Clear All fails and the first succeeds
  afterwards, and both tasks stay; the one delete of Clear Completed succeeds and task
  \<^verbatim>\<open>B\<close> leaves.
\<close>

theorem bulk_clear_is_all_or_nothing_witness:
  "distinct [2, 1 :: nat]
   \<and> set [2, 1] = {nextReq loaded ..< nextReq loaded + awaited loaded (todoList loaded)}
   \<and> distinct [1 :: nat]
   \<and> set [1] = {nextReq loaded ..< nextReq loaded
         + awaited loaded (filter (\<lambda>e. completed (elems loaded e)) (todoList loaded))}
   \<and> calls (step (ClearAllClick True) loaded) = [GetTodos, DeleteTodo ''1'', DeleteTodo ''2'']
   \<and> todoList (run [ClearAllClick True, Resolve 2 Failed, Resolve 1 (Returned Other)] loaded)
        = [0, 1]
   \<and> calls (step (ClearCompletedClick True) loaded) = [GetTodos, DeleteTodo ''2'']
   \<and> todoList (run [ClearCompletedClick True, Resolve 1 (Returned Other)] loaded) = [0]"
proof -
  have a2: "awaited loaded (todoList loaded) = 2"
    by (simp add: awaited_def loaded_simps backendId_def)
  have a1: "awaited loaded (filter (\<lambda>e. completed (elems loaded e)) (todoList loaded)) = 1"
    by (simp add: awaited_def loaded_simps backendId_def)
  have h1: "distinct [2, 1 :: nat]" by simp
  have h2: "set [2, 1] = {nextReq loaded ..< nextReq loaded + awaited loaded (todoList loaded)}"
    unfolding a2 loaded_nextReq by auto
  have h3: "distinct [1 :: nat]" by simp
  have h4: "set [1] = {nextReq loaded ..< nextReq loaded
         + awaited loaded (filter (\<lambda>e. completed (elems loaded e)) (todoList loaded))}"
    unfolding a1 loaded_nextReq by auto
  note t = bulk_clear_is_all_or_nothing [OF h1 h2 h3 h4,
      of "\<lambda>r. if r = 2 then Failed else Returned Other"]
  have c1: "calls (step (ClearAllClick True) loaded)
              = [GetTodos, DeleteTodo ''1'', DeleteTodo ''2'']"
    using t by (simp add: loaded_simps backendId_def)
  have c2: "todoList (run [ClearAllClick True, Resolve 2 Failed, Resolve 1 (Returned Other)]
              loaded) = [0, 1]"
    using t by (simp add: loaded_simps)
  have c3: "calls (step (ClearCompletedClick True) loaded) = [GetTodos, DeleteTodo ''2'']"
    using t by (simp add: loaded_simps backendId_def)
  have c4: "todoList (run [ClearCompletedClick True, Resolve 1 (Returned Other)] loaded) = [0]"
    using t by (simp add: loaded_simps)
  show ?thesis
    by (intro conjI h1 h2 h3 h4 c1 c2 c3 c4)
qed

text \<open>
  Claim C3 as stated fails: Clear All sends the deletes of tasks 1 and 2, the first
  succeeds and the second fails, and task 1, deleted in the store, is still in the list.
\<close>

theorem clear_all_keeps_deleted_task:
  "calls (step (ClearAllClick True) loaded) = [GetTodos, DeleteTodo ''1'', DeleteTodo ''2'']
   \<and> pending (step (ClearAllClick True) loaded) 1 = Some (AllK 0)
   \<and> pending (step (ClearAllClick True) loaded) 2 = Some (AllK 0)
   \<and> todoList (run [ClearAllClick True, Resolve 1 (Returned Other), Resolve 2 Failed] loaded)
        = [0, 1]"
  by (simp add: eval_simps loaded_simps)

subsection \<open>A failed toggle amid other events\<close>

lemma fold_create_keeps:
  "nextElem s \<le> nextElem (fold createTodoElement ts s)
   \<and> (\<forall>e < nextElem s. elems (fold createTodoElement ts s) e = elems s e)
   \<and> pending (fold createTodoElement ts s) = pending s
   \<and> nextReq (fold createTodoElement ts s) = nextReq s"
proof (induction ts arbitrary: s)
  case Nil
  show ?case by simp
next
  case (Cons t ts)
  let ?s1 = "createTodoElement t s"
  have n: "nextElem ?s1 = Suc (nextElem s)"
    and e: "\<forall>e < nextElem s. elems ?s1 e = elems s e"
    and p: "pending ?s1 = pending s" and r: "nextReq ?s1 = nextReq s"
    by (simp_all add: createTodoElement_def Let_def)
  show ?case
    using Cons.IH [of ?s1] n e p r by simp
qed

lemma fold_remove_keeps:
  "elems (fold removeLi ts s) = elems s \<and> nextElem (fold removeLi ts s) = nextElem s
   \<and> nextReq (fold removeLi ts s) = nextReq s"
  by (induction ts arbitrary: s) (simp_all add: removeLi_def)

lemma bulkDone_keeps:
  "completed (elems (bulkDone b s) e) = completed (elems s e)"
  "nextElem (bulkDone b s) = nextElem s"
  "nextReq (bulkDone b s) = nextReq s"
  by (cases b; simp add: updateTaskCounter_def applyFilter_eq filterTask_eq Let_def
        fold_remove_keeps)+

lemma bulkFailed_keeps:
  "elems (bulkFailed b s) = elems s"
  "nextElem (bulkFailed b s) = nextElem s"
  "nextReq (bulkFailed b s) = nextReq s"
  by (cases b; simp add: alert_def)+

lemma waiting_apiRequest:
  assumes "waiting e r0 s" and "k \<noteq> ToggleK e"
  shows "waiting e r0 (apiRequest rq k s)"
    and "elems (apiRequest rq k s) = elems s"
  using assms by (auto simp add: waiting_def io_defs)

lemma waiting_cong:
  assumes "waiting e r0 s" and "nextElem s' = nextElem s" and "nextReq s' = nextReq s"
    and "pending s' = pending s"
  shows "waiting e r0 s'"
  using assms by (simp add: waiting_def)

lemma keep_contentDiv_click:
  assumes "waiting e r0 s" and "e' \<noteq> e"
  shows "waiting e r0 (contentDiv_click e' now s)"
    and "completed (elems (contentDiv_click e' now s) e) = completed (elems s e)"
  using assms
  by (auto simp add: waiting_def contentDiv_click_def Let_def io_defs updateTaskCounter_def
      applyFilter_eq filterTask_eq split: option.split)

lemma keep_deleteButton_click:
  assumes "waiting e r0 s"
  shows "waiting e r0 (deleteButton_click e' s)"
    and "completed (elems (deleteButton_click e' s) e) = completed (elems s e)"
  using assms
  by (auto simp add: waiting_def deleteButton_click_def io_defs updateTaskCounter_def
      applyFilter_eq filterTask_eq removeLi_def Let_def split: option.split)

lemma keep_saveEdit:
  assumes "waiting e r0 s"
  shows "waiting e r0 (saveEdit e' s)"
    and "completed (elems (saveEdit e' s) e) = completed (elems s e)"
  using assms
  by (auto simp add: waiting_def saveEdit_def io_defs Let_def split: option.split)

lemma keep_addTodo:
  assumes "waiting e r0 s"
  shows "waiting e r0 (addTodo s)"
    and "completed (elems (addTodo s) e) = completed (elems s e)"
  using assms
  by (auto simp add: waiting_def addTodo_def io_defs Let_def)

lemma waiting_step:
  assumes "waiting e r0 s" and "nextElem s \<le> nextElem s'" and "nextReq s \<le> nextReq s'"
    and "r0 < nextReq s \<Longrightarrow> pending s' r0 = pending s r0"
    and "\<And>r. pending s' r = Some (ToggleK e) \<Longrightarrow> pending s r = Some (ToggleK e)"
  shows "waiting e r0 s'"
  unfolding waiting_def
proof (intro conjI allI impI)
  show "e < nextElem s'" using assms(1,2) by (simp add: waiting_def)
  show "r0 < nextReq s'" using assms(1,3) by (simp add: waiting_def)
  show "pending s' r0 = Some (ToggleK e)" using assms(1,4) by (simp add: waiting_def)
next
  fix r assume "pending s' r = Some (ToggleK e)"
  then have "pending s r = Some (ToggleK e)" by (rule assms(5))
  then show "r = r0" using assms(1) by (simp add: waiting_def)
qed

lemma nextElem_deleteEach: "nextElem (deleteEach g es s) = nextElem s"
proof (induction es arbitrary: s)
  case Nil
  show ?case by (simp add: deleteEach_Nil)
next
  case (Cons x xs)
  show ?case
    by (simp add: deleteEach_Cons Cons.IH io_defs split: option.split)
qed

lemma awaitAll_fields:
  "nextElem (awaitAll b es s) = nextElem s"
  "nextReq (awaitAll b es s) = nextReq s + awaited s es"
  "pending (awaitAll b es s) r =
     (if nextReq s \<le> r \<and> r < nextReq s + awaited s es then Some (AllK (nextGroup s))
      else pending s r)"
  "completed (elems (awaitAll b es s) e) = completed (elems s e)"
proof -
  note d = deleteEach_state [of "nextGroup s" es s]
  show "nextElem (awaitAll b es s) = nextElem s"
    by (simp add: awaitAll_def Let_def bulkDone_keeps nextElem_deleteEach del: bulkDone.simps)
  show "nextReq (awaitAll b es s) = nextReq s + awaited s es"
    using d by (simp add: awaitAll_def Let_def bulkDone_keeps del: bulkDone.simps)
  show "pending (awaitAll b es s) r =
     (if nextReq s \<le> r \<and> r < nextReq s + awaited s es then Some (AllK (nextGroup s))
      else pending s r)"
    using d by (auto simp add: awaitAll_def Let_def pending_bulkDone simp del: bulkDone.simps)
  show "completed (elems (awaitAll b es s) e) = completed (elems s e)"
    using d by (simp add: awaitAll_def Let_def bulkDone_keeps del: bulkDone.simps)
qed

lemma keep_awaitAll:
  assumes "waiting e r0 s"
  shows "waiting e r0 (awaitAll b es s)"
    and "completed (elems (awaitAll b es s) e) = completed (elems s e)"
proof -
  show "waiting e r0 (awaitAll b es s)"
  proof (rule waiting_step [OF assms])
    fix r assume "pending (awaitAll b es s) r = Some (ToggleK e)"
    then show "pending s r = Some (ToggleK e)"
      by (simp add: awaitAll_fields split: if_splits)
  qed (simp_all add: awaitAll_fields)
  show "completed (elems (awaitAll b es s) e) = completed (elems s e)"
    by (rule awaitAll_fields)
qed

lemma keep_alert:
  assumes "waiting e r0 s"
  shows "waiting e r0 (alert n s)"
  using assms by (simp add: waiting_def alert_def)

lemma keep_clear:
  assumes "waiting e r0 s"
  shows "waiting e r0 (clearAllTodos ok s)"
    and "completed (elems (clearAllTodos ok s) e) = completed (elems s e)"
    and "waiting e r0 (clearCompletedTodos ok s)"
    and "completed (elems (clearCompletedTodos ok s) e) = completed (elems s e)"
  using assms keep_awaitAll [OF assms] keep_alert [OF assms]
  by (simp_all add: clearAllTodos_def clearCompletedTodos_def Let_def)
     (simp_all add: alert_def)

lemma keep_view:
  assumes "waiting e r0 s"
  shows "waiting e r0 (applyFilter (updateTaskCounter s))"
    and "completed (elems (applyFilter (updateTaskCounter s)) e) = completed (elems s e)"
  using assms
  by (simp_all add: waiting_def updateTaskCounter_def applyFilter_eq filterTask_eq Let_def)

lemma keep_resume:
  assumes "waiting e r0 s" and "k \<noteq> ToggleK e"
  shows "waiting e r0 (resume k rep s)
         \<and> completed (elems (resume k rep s) e) = completed (elems s e)"
proof (cases k)
  case LoadK
  show ?thesis
  proof (cases "\<exists>todos. rep = Returned (Items todos)")
    case True
    then obtain todos where rep: "rep = Returned (Items todos)" by blast
    let ?s0 = "s\<lparr>todoList := []\<rparr>"
    let ?s1 = "fold createTodoElement todos ?s0"
    have w0: "waiting e r0 ?s0"
      using assms(1) by (simp add: waiting_def)
    have lt: "e < nextElem ?s0"
      using assms(1) by (simp add: waiting_def)
    note f = fold_create_keeps [of ?s0 todos]
    have w1: "waiting e r0 ?s1"
      by (rule waiting_step [OF w0]) (insert f, simp_all)
    have c1: "completed (elems ?s1 e) = completed (elems s e)"
      using f lt by simp
    show ?thesis
      using keep_view [OF w1] c1 by (simp add: LoadK rep)
  next
    case False
    then have "resume LoadK rep s = s"
      by (cases rep; simp) (rename_tac b, case_tac b, simp_all)
    then show ?thesis
      using assms(1) by (simp add: LoadK)
  qed
next
  case AddK
  show ?thesis
  proof (cases "\<exists>t. rep = Returned (Item t)")
    case True
    then obtain t where rep: "rep = Returned (Item t)" by blast
    let ?s1 = "(createTodoElement t s)\<lparr>inputValue := []\<rparr>"
    have w1: "waiting e r0 ?s1"
      by (rule waiting_step [OF assms(1)]) (simp_all add: createTodoElement_def Let_def)
    have c1: "completed (elems ?s1 e) = completed (elems s e)"
      using assms(1) by (simp add: createTodoElement_def Let_def waiting_def)
    show ?thesis
      using keep_view [OF w1] c1 by (simp add: AddK rep)
  next
    case False
    then have "resume AddK rep s = s"
      by (cases rep; simp) (rename_tac b, case_tac b, simp_all)
    then show ?thesis
      using assms(1) by (simp add: AddK)
  qed
next
  case (ToggleK e')
  then have ne: "e' \<noteq> e"
    using assms(2) by simp
  show ?thesis
  proof (cases rep)
    case Failed
    let ?s1 = "s\<lparr>elems := (elems s)(e' := (elems s e')\<lparr>completed := \<not> completed (elems s e')\<rparr>)\<rparr>"
    have w1: "waiting e r0 ?s1"
      using assms(1) by (simp add: waiting_def)
    have c1: "completed (elems ?s1 e) = completed (elems s e)"
      using ne by simp
    show ?thesis
      using keep_view [OF w1] c1 by (simp add: ToggleK Failed)
  next
    case (Returned b)
    show ?thesis
      using keep_view [OF assms(1)] by (simp add: ToggleK Returned)
  qed
next
  case (DeleteK e')
  show ?thesis
  proof (cases rep)
    case Failed
    show ?thesis
      using assms(1) by (simp add: DeleteK Failed)
  next
    case (Returned b)
    have w1: "waiting e r0 (removeLi e' s)"
      using assms(1) by (simp add: waiting_def removeLi_def)
    have c1: "completed (elems (removeLi e' s) e) = completed (elems s e)"
      by (simp add: removeLi_def)
    show ?thesis
      using keep_view [OF w1] c1 by (simp add: DeleteK Returned)
  qed
next
  case (SaveEditK e' newText)
  show ?thesis
    using assms(1)
    by (cases rep) (simp_all add: SaveEditK waiting_def updateTaskCounter_def Let_def)
next
  case (AllK g)
  show ?thesis
  proof (cases "groups s g")
    case None
    then show ?thesis
      using assms(1) by (simp add: AllK)
  next
    case (Some grp)
    let ?s0 = "s\<lparr>groups := (groups s)(g := None)\<rparr>"
    have w0: "waiting e r0 ?s0"
      using assms(1) by (simp add: waiting_def)
    show ?thesis
    proof (cases rep)
      case Failed
      have "waiting e r0 (bulkFailed (g_then grp) ?s0)"
        by (rule waiting_cong [OF w0]) (simp_all add: bulkFailed_keeps pending_bulkFailed)
      then show ?thesis
        by (simp add: AllK Some Failed bulkFailed_keeps del: bulkFailed.simps)
    next
      case (Returned b)
      have "waiting e r0 (bulkDone (g_then grp) ?s0)"
        by (rule waiting_cong [OF w0]) (simp_all add: bulkDone_keeps pending_bulkDone)
      moreover have "waiting e r0 (s\<lparr>groups := (groups s)(g \<mapsto> grp\<lparr>g_left := g_left grp - 1\<rparr>)\<rparr>)"
        using assms(1) by (simp add: waiting_def)
      ultimately show ?thesis
        by (simp add: AllK Some Returned bulkDone_keeps del: bulkDone.simps)
    qed
  qed
qed

lemma keep_resolve:
  assumes "waiting e r0 s" and "r \<noteq> r0"
  shows "waiting e r0 (resolve r rep s)
         \<and> completed (elems (resolve r rep s) e) = completed (elems s e)"
proof (cases "pending s r")
  case None
  then show ?thesis
    using assms(1) by (simp add: resolve_def)
next
  case (Some k)
  have k: "k \<noteq> ToggleK e"
    using assms Some by (auto simp add: waiting_def)
  let ?s1 = "settle rep (s\<lparr>pending := (pending s)(r := None)\<rparr>)"
  have w1: "waiting e r0 ?s1"
  proof (rule waiting_step [OF assms(1)])
    show "pending ?s1 r0 = pending s r0"
      using assms(2) by (simp add: settle_fields)
    fix x assume "pending ?s1 x = Some (ToggleK e)"
    then show "pending s x = Some (ToggleK e)"
      by (simp add: settle_fields split: if_splits)
  qed (cases rep; simp add: io_defs)+
  have c1: "completed (elems ?s1 e) = completed (elems s e)"
    by (simp add: settle_fields)
  show ?thesis
    using keep_resume [OF w1 k, of rep] c1 by (simp add: resolve_def Some)
qed

lemma keep_step:
  assumes "waiting e r0 s" and "quiet e r0 ev"
  shows "waiting e r0 (step ev s)
         \<and> completed (elems (step ev s) e) = completed (elems s e)"
proof (cases ev)
  case Load
  show ?thesis
    using waiting_apiRequest [OF assms(1), of LoadK GetTodos] by (simp add: Load loadTodos_def)
next
  case (TypeInput v)
  show ?thesis using assms(1) by (simp add: TypeInput waiting_def)
next
  case AddClick
  show ?thesis using keep_addTodo [OF assms(1)] by (simp add: AddClick)
next
  case (EditClick e')
  show ?thesis using assms(1) by (simp add: EditClick waiting_def enterEditMode_def)
next
  case (TypeEdit e' v)
  show ?thesis using assms(1) by (simp add: TypeEdit waiting_def)
next
  case (SaveClick e')
  show ?thesis using keep_saveEdit [OF assms(1)] by (simp add: SaveClick)
next
  case (CancelClick e')
  show ?thesis using assms(1) by (simp add: CancelClick waiting_def cancelEdit_def)
next
  case (ToggleClick e' now)
  then have "e' \<noteq> e" using assms(2) by (simp add: quiet_def)
  then show ?thesis using keep_contentDiv_click [OF assms(1)] by (simp add: ToggleClick)
next
  case (DeleteClick e')
  show ?thesis using keep_deleteButton_click [OF assms(1)] by (simp add: DeleteClick)
next
  case (ClearAllClick ok)
  show ?thesis using keep_clear [OF assms(1)] by (simp add: ClearAllClick)
next
  case (ClearCompletedClick ok)
  show ?thesis using keep_clear [OF assms(1)] by (simp add: ClearCompletedClick)
next
  case (Resolve r rep)
  then have "r \<noteq> r0" using assms(2) by (simp add: quiet_def)
  then show ?thesis using keep_resolve [OF assms(1)] by (simp add: Resolve)
qed


lemma run_append: "run (xs @ ys) s = run ys (run xs s)"
  by (simp add: run_def)

lemma keep_run:
  assumes "waiting e r0 s" and "\<forall>ev\<in>set evs. quiet e r0 ev"
  shows "waiting e r0 (run evs s) \<and> completed (elems (run evs s) e) = completed (elems s e)"
  using assms
proof (induction evs arbitrary: s)
  case Nil
  then show ?case by (simp add: run_Nil)
next
  case (Cons ev evs)
  have q: "quiet e r0 ev" and qs: "\<forall>ev\<in>set evs. quiet e r0 ev"
    using Cons.prems(2) by simp_all
  note k = keep_step [OF Cons.prems(1) q]
  have w: "waiting e r0 (step ev s)"
    using k by simp
  show ?case
    using Cons.IH [OF w qs] k by (simp add: run_Cons)
qed

text \<open>
  Claim C5. For every task, when the replace request fails during a single toggle of
  that task, the task's \<^verbatim>\<open>completed\<close> value after the operation is its value before the
  operation began. The task exists, has an identifier and is not being edited, and the
  toggle is the only one of that task: none is in flight at the click and none is clicked
  before the request fails. The click sends the replace request with the flipped value and
  shows the flipped value; whatever other events \<open>evs\<close> run before the request fails
  (clicks on other items, edits, adds, deletes, bulk clears, other requests settling),
  the flag is back at its old value afterwards.
\<close>

theorem toggle_failure_restores_completed:
  assumes "\<not> editing (elems s e)" and "backendId (elems s e) = Some i"
    and "e < nextElem s" and "\<forall>r. pending s r \<noteq> Some (ToggleK e)"
    and "\<forall>ev\<in>set evs. quiet e (nextReq s) ev"
  shows "calls (step (ToggleClick e now) s) =
           calls s @ [PutTodo i (taskText (elems s e)) (\<not> completed (elems s e))]
       \<and> pending (step (ToggleClick e now) s) (nextReq s) = Some (ToggleK e)
       \<and> completed (elems (step (ToggleClick e now) s) e) = (\<not> completed (elems s e))
       \<and> completed (elems (run (ToggleClick e now # evs @ [Resolve (nextReq s) Failed]) s) e)
           = completed (elems s e)"
proof -
  let ?r0 = "nextReq s"
  let ?s1 = "contentDiv_click e now s"
  let ?s2 = "run evs ?s1"
  note f = toggle_issue_fields [OF assms(1,2), of now]
  have w1: "waiting e ?r0 ?s1"
    unfolding waiting_def using assms(3,4)
    by (auto simp add: f toggle_issue [OF assms(1,2)] io_defs)
  have c1: "completed (elems ?s1 e) = (\<not> completed (elems s e))"
    by (simp add: f toggleCompleted_eq)
  note k = keep_run [OF w1 assms(5)]
  have p2: "pending ?s2 ?r0 = Some (ToggleK e)"
    using k by (simp add: waiting_def)
  have c2: "completed (elems ?s2 e) = (\<not> completed (elems s e))"
    using k c1 by simp
  have "completed (elems (resolve ?r0 Failed ?s2) e) = completed (elems s e)"
    using c2 by (simp add: resolve_ToggleK(1) [OF p2] filterTask_eq Let_def)
  then show ?thesis
    by (simp add: run_Cons run_append run_Nil f toggleCompleted_eq)
qed

text \<open>
  On the sample list: task \<^verbatim>\<open>A\<close> is clicked; before its request fails, task \<^verbatim>\<open>B\<close> is
  toggled with success and Clear Completed is confirmed.
\<close>

theorem toggle_failure_restores_completed_witness:
  "\<not> editing (elems loaded 0) \<and> backendId (elems loaded 0) = Some ''1''
   \<and> 0 < nextElem loaded \<and> (\<forall>r. pending loaded r \<noteq> Some (ToggleK 0))
   \<and> quiet 0 (nextReq loaded) (ToggleClick 1 5500)
   \<and> quiet 0 (nextReq loaded) (Resolve 2 (Returned Other))
   \<and> quiet 0 (nextReq loaded) (ClearCompletedClick True)
   \<and> completed (elems (step (ToggleClick 0 5000) loaded) 0) = True
   \<and> completed (elems (run [ToggleClick 0 5000, ToggleClick 1 5500, Resolve 2 (Returned Other),
                             ClearCompletedClick True, Resolve 1 Failed] loaded) 0) = False"
proof -
  have h1: "\<not> editing (elems loaded 0)"
    by (simp add: loaded_simps)
  have h2: "backendId (elems loaded 0) = Some ''1''"
    by (simp add: loaded_simps backendId_def)
  have h3: "0 < nextElem loaded"
    by (simp add: loaded_simps)
  have h4: "\<forall>r. pending loaded r \<noteq> Some (ToggleK 0)"
    by (simp add: loaded_simps)
  have q1: "quiet 0 (nextReq loaded) (ToggleClick 1 5500)"
    and q2: "quiet 0 (nextReq loaded) (Resolve 2 (Returned Other))"
    and q3: "quiet 0 (nextReq loaded) (ClearCompletedClick True)"
    by (simp_all add: quiet_def loaded_simps)
  have h5: "\<forall>ev\<in>set [ToggleClick 1 5500, Resolve 2 (Returned Other), ClearCompletedClick True].
              quiet 0 (nextReq loaded) ev"
    using q1 q2 q3 by simp
  note t = toggle_failure_restores_completed [OF h1 h2 h3 h4 h5, of 5000]
  have c0: "completed (elems (step (ToggleClick 0 5000) loaded) 0) = True"
    using t by (simp add: loaded_simps)
  have c: "completed (elems (run [ToggleClick 0 5000, ToggleClick 1 5500,
             Resolve 2 (Returned Other), ClearCompletedClick True, Resolve 1 Failed] loaded) 0)
           = False"
    using t by (simp add: loaded_simps)
  show ?thesis
    by (intro conjI h1 h2 h3 h4 q1 q2 q3 c0 c)
qed

subsection \<open>The counter\<close>

text \<open>
  \<^verbatim>\<open>_updateTaskCounter\<close> shows the number of tasks, of tasks that are not completed and
  of completed tasks in the list, and the first is the sum of the other two.
\<close>

theorem counter_adds_up:
  "taskCount (updateTaskCounter s) =
     (length (todoList s),
      length (filter (\<lambda>e. \<not> completed (elems s e)) (todoList s)),
      length (filter (\<lambda>e. completed (elems s e)) (todoList s)))
   \<and> length (todoList s) =
       length (filter (\<lambda>e. \<not> completed (elems s e)) (todoList s))
       + length (filter (\<lambda>e. completed (elems s e)) (todoList s))"
  using sum_length_filter_compl [of "\<lambda>e. completed (elems s e)" "todoList s"]
  by (simp add: updateTaskCounter_def Let_def count_completed)

end
